theory Spec2Isabelle
  imports Complex_Main "HOL-Library.Sublist"
begin

section \<open>Parametric floor generator: data model\<close>

text \<open>
  The generator of \<^verbatim>\<open>archipack_floor\<close> (file \<^verbatim>\<open>__init__.py\<close>) fills three buffers:
  vertices \<^verbatim>\<open>vs\<close>, quad faces \<^verbatim>\<open>fs\<close> and per-face material ids \<^verbatim>\<open>ms\<close>.
  Python floats are modelled by exact reals (and once more by rounded doubles, for the wood
  regular style, where a property depends on the rounding), Python ints by \<open>int\<close>, list
  lengths and vertex indices by \<open>nat\<close>. The object \<^verbatim>\<open>self\<close> is split into its properties
  (a record that a run only reads) and its buffers (a record that a run rebuilds).
  A \<^verbatim>\<open>while\<close> loop is a partial function into \<open>option\<close>: \<open>None\<close> is a sweep that never
  returns.
\<close>

type_synonym vertex = "real \<times> real \<times> real"
type_synonym face = "nat \<times> nat \<times> nat \<times> nat"

datatype material = Wood | Tile
datatype wood_style = Regular | Parquet | Herring_parquet | Herring
datatype tile_style = Regular_tile | Large_small | Large_many_small | Hexagon

record archipack_floor =
  floor_material :: material
  wood_styles :: wood_style
  tile_styles :: tile_style
  width :: real
  length_y :: real
  spacing :: real
  thickness :: real
  vary_thickness :: bool
  thickness_variance :: real
  board_width :: real
  vary_width :: bool
  width_variance :: real
  width_spacing :: real
  board_length :: real
  vary_length :: bool
  length_variance :: real
  max_boards :: int
  length_spacing :: real
  boards_in_group :: int
  tile_width :: real
  tile_length :: real
  mortar_depth :: real
  offset_tiles :: bool
  random_offset :: bool
  offset :: real
  offset_variance :: real

record buffers =
  vs :: "vertex list"
  fs :: "face list"
  ms :: "nat list"

definition no_geometry :: buffers where
  "no_geometry = \<lparr>vs = [], fs = [], ms = []\<rparr>"

subsection \<open>The random source\<close>

text \<open>
  \<^verbatim>\<open>random.uniform(a, b)\<close> of the Python library returns \<^verbatim>\<open>a + (b - a) * random()\<close>.
  The source of \<^verbatim>\<open>random()\<close> is a stream of draws; a call consumes the first one.
\<close>

type_synonym rng = "nat \<Rightarrow> real"

definition uniform :: "real \<Rightarrow> real \<Rightarrow> rng \<Rightarrow> real \<times> rng" where
  "uniform a b r = (a + (b - a) * r 0, \<lambda>n. r (Suc n))"

definition unit_draws :: "rng \<Rightarrow> bool" where
  "unit_draws r = (\<forall>n. 0 \<le> r n \<and> r n \<le> 1)"

subsection \<open>The box primitive\<close>

definition cube_vs :: "real \<Rightarrow> real \<Rightarrow> real \<Rightarrow> real \<Rightarrow> real \<Rightarrow> real \<Rightarrow> vertex list" where
  "cube_vs x y z w l t =
     [(x, y, z), (x, y, z + t), (x + w, y, z), (x + w, y, z + t), (x, y + l, z),
      (x, y + l, z + t), (x + w, y + l, z), (x + w, y + l, z + t)]"

definition cube_fs :: "nat \<Rightarrow> face list" where
  "cube_fs p =
     [(p, p + 2, p + 3, p + 1), (p + 2, p + 6, p + 7, p + 3), (p + 1, p + 3, p + 7, p + 5),
      (p + 6, p + 4, p + 5, p + 7), (p, p + 1, p + 5, p + 4), (p, p + 4, p + 6, p + 2)]"

text \<open>
  \<^verbatim>\<open>add_cube(self, x, y, z, w, l, t, clip=True, mat_id=0)\<close>: the early return, the two
  clipping assignments and the three calls of \<^verbatim>\<open>append_all\<close>.
\<close>

definition add_cube ::
  "archipack_floor \<Rightarrow> real \<Rightarrow> real \<Rightarrow> real \<Rightarrow> real \<Rightarrow> real \<Rightarrow> real \<Rightarrow> bool \<Rightarrow> nat \<Rightarrow> buffers \<Rightarrow> buffers" where
  "add_cube self x y z w l t clip mat_id s =
     (let p = length (vs s) in
      if clip \<and> (x \<ge> width self \<or> y \<ge> length_y self) then s
      else
        let w = (if clip \<and> x + w > width self then width self - x else w);
            l = (if clip \<and> y + l > length_y self then length_y self - y else l)
        in s\<lparr>vs := vs s @ cube_vs x y z w l t,
              fs := fs s @ cube_fs p,
              ms := ms s @ replicate 6 mat_id\<rparr>)"

subsection \<open>Wood, regular\<close>

text \<open>
  The body of the inner sweep up to the call of \<^verbatim>\<open>add_cube\<close>: the thickness and the
  length of the board at \<^verbatim>\<open>cur_y\<close>, and the random source after the draws.
\<close>

definition wood_regular_board :: "archipack_floor \<Rightarrow> real \<Rightarrow> int \<Rightarrow> rng \<Rightarrow> real \<times> real \<times> rng" where
  "wood_regular_board self cur_y counter r =
     (let zt = thickness self; bl = board_length self;
          (z, r) = (if vary_thickness self
                    then let v = zt * 0.99 * (thickness_variance self / 100)
                         in uniform (zt - v) (zt + v) r
                    else (zt, r));
          (bl2, r) = (if vary_length self
                      then let v = bl * (length_variance self / 100) * 0.99
                           in uniform (bl - v) (bl + v) r
                      else (bl, r));
          bl2 = (if (counter \<ge> max_boards self \<and> vary_length self) \<or> cur_y + bl2 > length_y self
                 then length_y self - cur_y else bl2)
      in (z, bl2, r))"

text \<open>The inner sweep \<^verbatim>\<open>while cur_y < self.length\<close> of \<^verbatim>\<open>wood_regular\<close>.\<close>

partial_function (option) wood_regular_rows ::
  "archipack_floor \<Rightarrow> real \<Rightarrow> real \<Rightarrow> real \<Rightarrow> int \<Rightarrow> rng \<Rightarrow> buffers \<Rightarrow> (rng \<times> buffers) option" where
  "wood_regular_rows self cur_x bw2 cur_y counter r s =
     (if cur_y < length_y self then
        let (z, bl2, r) = wood_regular_board self cur_y counter r
        in wood_regular_rows self cur_x bw2 (cur_y + (bl2 + length_spacing self)) (counter + 1) r
             (add_cube self cur_x cur_y 0 bw2 bl2 z True 0 s)
      else Some (r, s))"

text \<open>The head of the outer sweep: the width of the column at \<^verbatim>\<open>cur_x\<close>.\<close>

definition wood_regular_column :: "archipack_floor \<Rightarrow> real \<Rightarrow> rng \<Rightarrow> real \<times> rng" where
  "wood_regular_column self cur_x r =
     (let bw = board_width self;
          (bw2, r) = (if vary_width self
                      then let v = bw * (width_variance self / 100) * 0.99
                           in uniform (bw - v) (bw + v) r
                      else (bw, r));
          bw2 = (if bw2 + cur_x > width self then width self - cur_x else bw2)
      in (bw2, r))"

text \<open>
  The outer sweep \<^verbatim>\<open>while cur_x < self.width\<close>; each column starts its inner sweep at
  \<^verbatim>\<open>cur_y = 0.0\<close> with \<^verbatim>\<open>counter = 1\<close>.
\<close>

partial_function (option) wood_regular_cols ::
  "archipack_floor \<Rightarrow> real \<Rightarrow> rng \<Rightarrow> buffers \<Rightarrow> (rng \<times> buffers) option" where
  "wood_regular_cols self cur_x r s =
     (if cur_x < width self then
        let (bw2, r) = wood_regular_column self cur_x r
        in Option.bind (wood_regular_rows self cur_x bw2 0 1 r s)
             (\<lambda>(r, s). wood_regular_cols self (cur_x + (bw2 + width_spacing self)) r s)
      else Some (r, s))"

definition wood_regular :: "archipack_floor \<Rightarrow> rng \<Rightarrow> buffers \<Rightarrow> (rng \<times> buffers) option" where
  "wood_regular self r s = wood_regular_cols self 0 r s"

subsection \<open>Wood, parquet\<close>

text \<open>
  The two \<^verbatim>\<open>for i in range(self.boards_in_group)\<close> loops. The loop variables
  \<^verbatim>\<open>cur_x\<close>, \<^verbatim>\<open>cur_y\<close>, \<^verbatim>\<open>bw2\<close>, \<^verbatim>\<open>bl2\<close> outlive an iteration, so they are
  threaded through with the buffers.
\<close>

definition board_fs :: "nat \<Rightarrow> face list" where
  "board_fs p =
     [(p, p + 3, p + 2, p + 1), (p + 4, p + 5, p + 6, p + 7),
      (p, p + 4, p + 7, p + 3), (p + 3, p + 7, p + 6, p + 2),
      (p + 1, p + 2, p + 6, p + 5), (p, p + 1, p + 5, p + 4)]"

type_synonym group_state = "real \<times> real \<times> real \<times> real \<times> buffers"

definition parquet_board_length :: "archipack_floor \<Rightarrow> real \<Rightarrow> real \<Rightarrow> group_state \<Rightarrow> group_state" where
  "parquet_board_length self bl z st =
     (case st of (cur_x, cur_y, bw2, bl2, s) \<Rightarrow>
        if cur_x < width self \<and> cur_y < length_y self then
          let bw2 = (if cur_x < width self \<and> width self < cur_x + board_width self
                     then width self - cur_x else bw2);
              bl2 = (if cur_y < length_y self \<and> length_y self < cur_y + bl
                     then length_y self - cur_y else bl2);
              p = length (vs s);
              s = s\<lparr>vs := vs s @ [(cur_x, cur_y, 0), (cur_x, cur_y, z), (cur_x + bw2, cur_y, z),
                                   (cur_x + bw2, cur_y, 0)]\<rparr>;
              cur_y = cur_y + bl2;
              s = s\<lparr>vs := vs s @ [(cur_x, cur_y, 0), (cur_x, cur_y, z), (cur_x + bw2, cur_y, z),
                                   (cur_x + bw2, cur_y, 0)]\<rparr>;
              cur_y = cur_y - bl2;
              cur_x = cur_x + (bw2 + spacing self);
              s = s\<lparr>fs := fs s @ board_fs p\<rparr>;
              s = s\<lparr>ms := ms s @ replicate 6 0\<rparr>
          in (cur_x, cur_y, bw2, bl2, s)
        else st)"

definition parquet_board_width :: "archipack_floor \<Rightarrow> real \<Rightarrow> real \<Rightarrow> group_state \<Rightarrow> group_state" where
  "parquet_board_width self bl z st =
     (case st of (cur_x, cur_y, bw2, bl2, s) \<Rightarrow>
        if cur_x < width self \<and> cur_y < length_y self then
          let bl2 = (if cur_x < width self \<and> width self < cur_x + bl
                     then width self - cur_x else bl2);
              bw2 = (if cur_y < length_y self \<and> length_y self < cur_y + board_width self
                     then length_y self - cur_y else bw2);
              p = length (vs s);
              s = s\<lparr>vs := vs s @ [(cur_x, cur_y + bw2, 0), (cur_x, cur_y + bw2, z),
                                   (cur_x, cur_y, z), (cur_x, cur_y, 0)]\<rparr>;
              cur_x = cur_x + bl2;
              s = s\<lparr>vs := vs s @ [(cur_x, cur_y + bw2, 0), (cur_x, cur_y + bw2, z),
                                   (cur_x, cur_y, z), (cur_x, cur_y, 0)]\<rparr>;
              cur_x = cur_x - bl2;
              cur_y = cur_y + (bw2 + spacing self);
              s = s\<lparr>fs := fs s @ board_fs p\<rparr>;
              s = s\<lparr>ms := ms s @ replicate 6 0\<rparr>
          in (cur_x, cur_y, bw2, bl2, s)
        else st)"

fun for_range :: "nat \<Rightarrow> ('a \<Rightarrow> 'a) \<Rightarrow> 'a \<Rightarrow> 'a" where
  "for_range 0 body st = st"
| "for_range (Suc n) body st = for_range n body (body st)"

text \<open>One pass of the inner sweep: a group of boards, the cursor and the buffers after it.\<close>

definition wood_parquet_group ::
  "archipack_floor \<Rightarrow> real \<Rightarrow> real \<Rightarrow> real \<Rightarrow> real \<Rightarrow> bool \<Rightarrow> buffers \<Rightarrow> real \<times> real \<times> buffers" where
  "wood_parquet_group self bl z cur_x cur_y orient_length s =
     (let bl2 = bl; bw2 = board_width self
      in if orient_length then
           let start_x = cur_x;
               (cur_x, cur_y, bw2, bl2, s) =
                  for_range (nat (boards_in_group self)) (parquet_board_length self bl z)
                    (cur_x, cur_y, bw2, bl2, s);
               cur_x = start_x;
               cur_y = cur_y + (bl2 + spacing self)
           in (cur_x, cur_y, s)
         else
           let (cur_x, cur_y, bw2, bl2, s) =
                  for_range (nat (boards_in_group self)) (parquet_board_width self bl z)
                    (cur_x, cur_y, bw2, bl2, s)
           in (cur_x, cur_y, s))"

text \<open>The sweeps \<^verbatim>\<open>while cur_y < self.length\<close> and \<^verbatim>\<open>while cur_x < self.width\<close> of \<^verbatim>\<open>wood_parquet\<close>.\<close>

partial_function (option) wood_parquet_groups ::
  "archipack_floor \<Rightarrow> real \<Rightarrow> real \<Rightarrow> real \<Rightarrow> real \<Rightarrow> bool \<Rightarrow> buffers \<Rightarrow> buffers option" where
  "wood_parquet_groups self bl z cur_x cur_y orient_length s =
     (if cur_y < length_y self then
        let (cur_x, cur_y, s) = wood_parquet_group self bl z cur_x cur_y orient_length s
        in wood_parquet_groups self bl z cur_x cur_y (\<not> orient_length) s
      else Some s)"

partial_function (option) wood_parquet_cols ::
  "archipack_floor \<Rightarrow> real \<Rightarrow> real \<Rightarrow> real \<Rightarrow> bool \<Rightarrow> buffers \<Rightarrow> buffers option" where
  "wood_parquet_cols self bl z cur_x start_orient_length s =
     (if cur_x < width self then
        Option.bind (wood_parquet_groups self bl z cur_x 0 start_orient_length s)
          (\<lambda>s. wood_parquet_cols self bl z (cur_x + (bl + spacing self)) (\<not> start_orient_length) s)
      else Some s)"

definition wood_parquet :: "archipack_floor \<Rightarrow> buffers \<Rightarrow> buffers option" where
  "wood_parquet self s =
     (let z = thickness self;
          bl = (board_width self * of_int (boards_in_group self))
               + (spacing self * of_int (boards_in_group self - 1))
      in wood_parquet_cols self bl z 0 True s)"

subsection \<open>Tile: grout base, regular, large + small\<close>

definition tile_grout :: "archipack_floor \<Rightarrow> buffers \<Rightarrow> buffers" where
  "tile_grout self s =
     (let z = thickness self - mortar_depth self; x = width self; y = length_y self
      in add_cube self 0 0 0 x y z True 1 s)"

datatype py_error = ZeroDivisionError

text \<open>The width of the tile at \<^verbatim>\<open>cur_x\<close>: the \<^verbatim>\<open>if\<close>/\<^verbatim>\<open>elif\<close> chain of the inner sweep.\<close>

definition tile_regular_tile ::
  "archipack_floor \<Rightarrow> real \<Rightarrow> bool \<Rightarrow> real \<Rightarrow> rng \<Rightarrow> real \<times> rng" where
  "tile_regular_tile self o_frac off cur_x r =
     (let tw2 = tile_width self
      in if cur_x < width self \<and> width self < cur_x + tile_width self
         then (width self - cur_x, r)
         else if cur_x = 0 \<and> off \<and> offset_tiles self \<and> \<not> random_offset self
         then (tile_width self * o_frac, r)
         else if cur_x = 0 \<and> offset_tiles self \<and> random_offset self
         then let v = tile_length self * 0.0049 * offset_variance self
              in uniform ((tile_length self / 2) - v) ((tile_length self / 2) + v) r
         else (tw2, r))"

text \<open>
  The sweeps \<^verbatim>\<open>while cur_x < self.width\<close> and \<^verbatim>\<open>while cur_y < self.length\<close> of
  \<^verbatim>\<open>tile_regular\<close>; \<open>o_frac\<close> is the local \<^verbatim>\<open>o\<close>.
\<close>

partial_function (option) tile_regular_cols ::
  "archipack_floor \<Rightarrow> real \<Rightarrow> bool \<Rightarrow> real \<Rightarrow> real \<Rightarrow> real \<Rightarrow> rng \<Rightarrow> buffers \<Rightarrow> (rng \<times> buffers) option" where
  "tile_regular_cols self o_frac off cur_y tl2 cur_x r s =
     (if cur_x < width self then
        let (tw2, r) = tile_regular_tile self o_frac off cur_x r
        in tile_regular_cols self o_frac off cur_y tl2 (cur_x + (tw2 + spacing self)) r
             (add_cube self cur_x cur_y 0 tw2 tl2 (thickness self) True 0 s)
      else Some (r, s))"

partial_function (option) tile_regular_rows ::
  "archipack_floor \<Rightarrow> real \<Rightarrow> bool \<Rightarrow> real \<Rightarrow> rng \<Rightarrow> buffers \<Rightarrow> (rng \<times> buffers) option" where
  "tile_regular_rows self o_frac off cur_y r s =
     (if cur_y < length_y self then
        let tl2 = tile_length self;
            tl2 = (if cur_y < length_y self \<and> length_y self < cur_y + tile_length self
                   then length_y self - cur_y else tl2)
        in Option.bind (tile_regular_cols self o_frac off cur_y tl2 0 r s)
             (\<lambda>(r, s). tile_regular_rows self o_frac (\<not> off) (cur_y + (tl2 + spacing self)) r s)
      else Some (r, s))"

text \<open>
  \<^verbatim>\<open>o = 1 / (100 / self.offset)\<close> raises \<^verbatim>\<open>ZeroDivisionError\<close> when the offset is zero;
  no other statement of the generator can raise.
\<close>

definition tile_regular ::
  "archipack_floor \<Rightarrow> rng \<Rightarrow> buffers \<Rightarrow> (py_error + rng \<times> buffers) option" where
  "tile_regular self r s =
     (if offset self = 0 then Some (Inl ZeroDivisionError)
      else map_option Inr (tile_regular_rows self (1 / (100 / offset self)) False 0 r s))"

text \<open>
  One pass of the inner sweep: the boxes of the cell at \<^verbatim>\<open>(cur_x, cur_y)\<close> and the
  cursor, the toggle and the buffers after it.
\<close>

definition tile_large_small_cell ::
  "archipack_floor \<Rightarrow> nat \<Rightarrow> real \<Rightarrow> real \<Rightarrow> bool \<Rightarrow> buffers \<Rightarrow> real \<times> real \<times> bool \<times> buffers" where
  "tile_large_small_cell self row cur_x cur_y step_back s =
     (let th = thickness self; sp = spacing self;
          tw = tile_width self; tl = tile_length self;
          s_tw = (tw - sp) / 2; s_tl = (tl - sp) / 2
      in
      if row = 0 \<or> row = 1 then
        let s = (if cur_y < 0 then add_cube self cur_x 0 0 tw (tl + cur_y) th True 0 s
                 else add_cube self cur_x cur_y 0 tw tl th True 0 s);
            s = add_cube self (cur_x + tw + sp) (cur_y + s_tl + sp) 0 s_tw s_tl th True 0 s
        in if step_back
           then (cur_x + (tw + sp), cur_y - (s_tl + sp), \<not> step_back, s)
           else (cur_x + (tw + s_tw + 2 * sp), cur_y + (s_tl + sp), \<not> step_back, s)
      else
        if cur_x = 0 then
          let s = add_cube self cur_x cur_y 0 s_tw tl th True 0 s;
              s = add_cube self (cur_x + s_tw + sp) (cur_y + s_tl + sp) 0 s_tw s_tl th True 0 s;
              s = add_cube self cur_x (cur_y - sp - s_tl) 0 s_tw s_tl th True 0 s
          in (cur_x + ((2 * s_tw) + tw + (3 * sp)), cur_y, step_back, s)
        else
          let s = add_cube self cur_x cur_y 0 tw tl th True 0 s;
              s = add_cube self (cur_x + tw + sp) (cur_y + s_tl + sp) 0 s_tw s_tl th True 0 s
          in (cur_x + ((2 * tw) + (3 * sp) + s_tw), cur_y, step_back, s))"

text \<open>
  The sweeps of \<^verbatim>\<open>tile_large_small\<close>. The inner sweep moves \<^verbatim>\<open>cur_y\<close>, and the outer one
  sets it again from \<^verbatim>\<open>pre_y\<close> before it tests it.
\<close>

partial_function (option) tile_large_small_cols ::
  "archipack_floor \<Rightarrow> nat \<Rightarrow> real \<Rightarrow> real \<Rightarrow> bool \<Rightarrow> buffers \<Rightarrow> buffers option" where
  "tile_large_small_cols self row cur_x cur_y step_back s =
     (if cur_x < width self then
        let (cur_x, cur_y, step_back, s) = tile_large_small_cell self row cur_x cur_y step_back s
        in tile_large_small_cols self row cur_x cur_y step_back s
      else Some s)"

partial_function (option) tile_large_small_rows ::
  "archipack_floor \<Rightarrow> nat \<Rightarrow> real \<Rightarrow> real \<Rightarrow> buffers \<Rightarrow> buffers option" where
  "tile_large_small_rows self row cur_y pre_y s =
     (let sp = spacing self; tw = tile_width self; tl = tile_length self;
          s_tw = (tw - sp) / 2; s_tl = (tl - sp) / 2
      in
      if cur_y < length_y self then
        let cur_x = (if row = 1 then s_tw + sp else 0)
        in Option.bind (tile_large_small_cols self row cur_x cur_y True s)
             (\<lambda>s. let cur_y = (if row = 0 \<or> row = 2 then pre_y + tl + sp else pre_y + s_tl + sp);
                      pre_y = cur_y
                  in tile_large_small_rows self ((row + 1) mod 3) cur_y pre_y s)
      else Some s)"

definition tile_large_small :: "archipack_floor \<Rightarrow> buffers \<Rightarrow> buffers option" where
  "tile_large_small self s = tile_large_small_rows self 0 0 0 s"

subsection \<open>The generation run and the accessors\<close>

text \<open>
  \<^verbatim>\<open>update_data\<close> empties the three buffers, whatever they held, and runs the style that
  the two enumerations select; the styles without a branch add nothing.
\<close>

definition update_data ::
  "archipack_floor \<Rightarrow> rng \<Rightarrow> buffers \<Rightarrow> (py_error + rng \<times> buffers) option" where
  "update_data self r s =
     (let s = no_geometry in
      case floor_material self of
        Wood \<Rightarrow>
          (case wood_styles self of
             Regular \<Rightarrow> map_option Inr (wood_regular self r s)
           | Parquet \<Rightarrow> map_option (\<lambda>s. Inr (r, s)) (wood_parquet self s)
           | _ \<Rightarrow> Some (Inr (r, s)))
      | Tile \<Rightarrow>
          (let s = tile_grout self s in
           case tile_styles self of
             Regular_tile \<Rightarrow> tile_regular self r s
           | Large_small \<Rightarrow> map_option (\<lambda>s. Inr (r, s)) (tile_large_small self s)
           | _ \<Rightarrow> Some (Inr (r, s))))"

definition verts :: "buffers \<Rightarrow> vertex list" where
  "verts s = vs s"

definition faces :: "buffers \<Rightarrow> face list" where
  "faces s = fs s"

definition uvs :: "buffers \<Rightarrow> (real \<times> real) list list" where
  "uvs s = []"

definition matids :: "buffers \<Rightarrow> nat list" where
  "matids s = []"

section \<open>Vocabulary of the properties\<close>

text \<open>The constants and the property ranges declared at the top of the class.\<close>

definition FOOT :: real where
  "FOOT = 0.3048"

definition INCH :: real where
  "INCH = 0.0254"

definition validated :: "archipack_floor \<Rightarrow> bool" where
  "validated self =
     (2 * FOOT \<le> width self \<and> 2 * FOOT \<le> length_y self \<and> 0 \<le> spacing self
      \<and> 0.25 * INCH \<le> thickness self
      \<and> 1 \<le> thickness_variance self \<and> thickness_variance self \<le> 100
      \<and> 2 * INCH \<le> board_width self
      \<and> 1 \<le> width_variance self \<and> width_variance self \<le> 100
      \<and> 0 \<le> width_spacing self
      \<and> 2 * FOOT \<le> board_length self
      \<and> 1 \<le> length_variance self \<and> length_variance self \<le> 100
      \<and> 1 \<le> max_boards self \<and> 0 \<le> length_spacing self
      \<and> 1 \<le> boards_in_group self
      \<and> 2 * INCH \<le> tile_width self \<and> 2 * INCH \<le> tile_length self
      \<and> 0 \<le> mortar_depth self
      \<and> 0.001 \<le> offset self \<and> offset self \<le> 100
      \<and> 0.001 \<le> offset_variance self \<and> offset_variance self \<le> 100)"

text \<open>A face whose four indices are below \<open>n\<close>, or at least \<open>n\<close>.\<close>

definition face_below :: "nat \<Rightarrow> face \<Rightarrow> bool" where
  "face_below n f = (case f of (a, b, c, d) \<Rightarrow> a < n \<and> b < n \<and> c < n \<and> d < n)"

definition face_from :: "nat \<Rightarrow> face \<Rightarrow> bool" where
  "face_from n f = (case f of (a, b, c, d) \<Rightarrow> n \<le> a \<and> n \<le> b \<and> n \<le> c \<and> n \<le> d)"

text \<open>
  \<^verbatim>\<open>add_cube\<close> appends the eight corners of a box in a fixed order: the first is
  \<open>(x, y, z)\<close> and the eighth is \<open>(x + w, y + l, z + t)\<close>. Reading the vertex buffer
  eight at a time gives back the footprint \<open>(x, y, w, l)\<close> of every emitted box.
\<close>

fun footprints :: "vertex list \<Rightarrow> (real \<times> real \<times> real \<times> real) list" where
  "footprints (a # b # c # d # e # f # g # h # rest) =
     (fst a, fst (snd a), fst h - fst a, fst (snd h) - fst (snd a)) # footprints rest"
| "footprints _ = []"

text \<open>The parameters of the worked example: a 4 by 2 floor of 1 by 1 boards.\<close>

definition example_floor :: archipack_floor where
  "example_floor =
     \<lparr>floor_material = Wood, wood_styles = Regular, tile_styles = Regular_tile,
      width = 4, length_y = 2, spacing = 0, thickness = 1, vary_thickness = False,
      thickness_variance = 50, board_width = 1, vary_width = False, width_variance = 50,
      width_spacing = 0, board_length = 1, vary_length = False, length_variance = 50,
      max_boards = 2, length_spacing = 0, boards_in_group = 4, tile_width = 1, tile_length = 1,
      mortar_depth = 0, offset_tiles = False, random_offset = False, offset = 50,
      offset_variance = 50\<rparr>"

text \<open>
  Boxes are appended whole: eight vertices, then six faces, then six material ids. So face
  number \<open>k\<close> belongs to box number \<open>k div 6\<close>, and at the time it is appended the
  vertex buffer holds \<open>8 * (k div 6) + 8\<close> vertices.
\<close>

definition lockstep :: "buffers \<Rightarrow> bool" where
  "lockstep s =
     (length (fs s) mod 6 = 0 \<and> length (vs s) = 8 * (length (fs s) div 6)
      \<and> length (ms s) = length (fs s)
      \<and> (\<forall>k < length (fs s). face_below (8 * (k div 6) + 8) (fs s ! k)))"

text \<open>The buffers \<open>s'\<close> are the buffers \<open>s\<close> with entries appended.\<close>

definition extends :: "buffers \<Rightarrow> buffers \<Rightarrow> bool" where
  "extends s s' = (prefix (vs s) (vs s') \<and> prefix (fs s) (fs s') \<and> prefix (ms s) (ms s'))"

text \<open>No vertex lies beyond the right edge \<open>x = W\<close> or the top edge \<open>y = L\<close>.\<close>

definition within_edges :: "archipack_floor \<Rightarrow> buffers \<Rightarrow> bool" where
  "within_edges self s =
     (\<forall>v \<in> set (vs s). fst v \<le> width self \<and> fst (snd v) \<le> length_y self)"

text \<open>Every vertex lies over the footprint \<open>[0, W] \<times> [0, L]\<close>.\<close>

definition inside_footprint :: "archipack_floor \<Rightarrow> buffers \<Rightarrow> bool" where
  "inside_footprint self s =
     (\<forall>v \<in> set (vs s). 0 \<le> fst v \<and> fst v \<le> width self
                         \<and> 0 \<le> fst (snd v) \<and> fst (snd v) \<le> length_y self)"

text \<open>
  A small tiled floor for the large + small style: 2.5 by 1, tiles of 2 by 2, no spacing,
  mortar a quarter deep.
\<close>

definition example_tiles :: archipack_floor where
  "example_tiles =
     example_floor\<lparr>floor_material := Tile, tile_styles := Large_small, width := 5 / 2,
       length_y := 1, tile_width := 2, tile_length := 2, mortar_depth := 1 / 4\<rparr>"

text \<open>
  A floor of one row of regular tiles whose first tile is offset at random, with no
  \<^verbatim>\<open>vary_*\<close> flag set.
\<close>

definition example_offset :: archipack_floor where
  "example_offset =
     example_floor\<lparr>floor_material := Tile, tile_styles := Regular_tile, width := 1,
       length_y := 1, tile_width := 1, tile_length := 1, offset_tiles := True,
       random_offset := True, offset_variance := 100\<rparr>"

text \<open>The worked example with boards of width zero: the column stride is zero.\<close>

definition example_stuck :: archipack_floor where
  "example_stuck = example_floor\<lparr>board_width := 0\<rparr>"

text \<open>The worked example with every \<^verbatim>\<open>vary_*\<close> flag set, at the largest variance.\<close>

definition example_varied :: archipack_floor where
  "example_varied =
     example_floor\<lparr>vary_thickness := True, thickness_variance := 100, vary_width := True,
       width_variance := 100, vary_length := True, length_variance := 100\<rparr>"

text \<open>A floor of regular tiles with every second row offset at random.\<close>

definition example_regular_tiles :: archipack_floor where
  "example_regular_tiles =
     example_floor\<lparr>floor_material := Tile, offset_tiles := True, random_offset := True,
       offset_variance := 100, spacing := 1 / 100\<rparr>"





text \<open>
  The buffers after a sequence of clipped calls \<^verbatim>\<open>add_cube(x, y, 0, w, l, t)\<close>, in order,
  each with the default \<^verbatim>\<open>clip=True\<close> and \<^verbatim>\<open>mat_id=0\<close>.
\<close>

definition clipped_cubes ::
  "archipack_floor \<Rightarrow> (real \<times> real \<times> real \<times> real \<times> real) list \<Rightarrow> buffers \<Rightarrow> buffers" where
  "clipped_cubes self calls s =
     fold (\<lambda>(x, y, w, l, t). add_cube self x y 0 w l t True 0) calls s"

text \<open>
  The source computes in Python floats: IEEE 754 binary64, every operation rounded to the
  nearest double, ties to even. \<open>binary64 x\<close> is the double nearest to the real \<open>x\<close>:
  53 significant bits, the quantum \<open>2 ^ - 1074\<close> for subnormal magnitudes; overflow to
  infinity is not modelled, so it stands for the rounding of magnitudes below \<open>2 ^ 1024\<close>.
\<close>

definition round_half_even :: "real \<Rightarrow> int" where
  "round_half_even m =
     (let f = \<lfloor>m\<rfloor>
      in if m - of_int f < 1 / 2 then f
         else if 1 / 2 < m - of_int f then f + 1
         else if even f then f else f + 1)"

definition binary64 :: "real \<Rightarrow> real" where
  "binary64 x =
     (if x = 0 then 0
      else let e = max \<lfloor>log 2 \<bar>x\<bar>\<rfloor> (- 1022) - 52
           in of_int (round_half_even (x / 2 powr of_int e)) * 2 powr of_int e)"













text \<open>A floor of 1 by 1 with boards of width 0.1, the double nearest to a tenth.\<close>

definition example_tenths :: archipack_floor where
  "example_tenths = example_floor\<lparr>width := 1, length_y := 1, board_width := binary64 (1 / 10)\<rparr>"

section \<open>The box primitive\<close>

lemma length_cube_vs [simp]: "length (cube_vs x y z w l t) = 8"
  by (simp add: cube_vs_def)

lemma length_cube_fs [simp]: "length (cube_fs p) = 6"
  by (simp add: cube_fs_def)

lemma set_cube_vs: "set (cube_vs x y z w l t) = {x, x + w} \<times> {y, y + l} \<times> {z, z + t}"
  by (auto simp add: cube_vs_def)

lemma cube_fs_range: "f \<in> set (cube_fs p) \<Longrightarrow> face_from p f \<and> face_below (p + 8) f"
  by (auto simp add: cube_fs_def face_from_def face_below_def)

lemma add_cube_skip:
  "width self \<le> x \<or> length_y self \<le> y \<Longrightarrow> add_cube self x y z w l t True m s = s"
  by (simp add: add_cube_def)

lemma add_cube_inside:
  "x < width self \<Longrightarrow> y < length_y self \<Longrightarrow> x + w \<le> width self \<Longrightarrow> y + l \<le> length_y self \<Longrightarrow>
   add_cube self x y z w l t True m s =
     s\<lparr>vs := vs s @ cube_vs x y z w l t, fs := fs s @ cube_fs (length (vs s)),
       ms := ms s @ replicate 6 m\<rparr>"
  by (simp add: add_cube_def)

lemma example_floor_simps [simp]:
  "floor_material example_floor = Wood" "wood_styles example_floor = Regular"
  "width example_floor = 4" "length_y example_floor = 2"
  "thickness example_floor = 1" "vary_thickness example_floor = False"
  "board_width example_floor = 1" "vary_width example_floor = False"
  "width_spacing example_floor = 0" "board_length example_floor = 1"
  "vary_length example_floor = False" "length_spacing example_floor = 0"
  "max_boards example_floor = 2"
  by (simp_all add: example_floor_def)

text \<open>
  C1. With \<^verbatim>\<open>clip\<close> enabled, \<^verbatim>\<open>add_cube\<close> leaves every buffer as it is when
  \<open>x \<ge> W\<close> or \<open>y \<ge> L\<close>. Otherwise it appends eight vertices, the corners of
  \<open>[x, x + w'] \<times> [y, y + l'] \<times> [z, z + t]\<close>, six faces over these eight vertices and six
  times the material id, where \<open>w' = W - x\<close> when \<open>x + w > W\<close> and \<open>w\<close> otherwise,
  \<open>l' = L - y\<close> when \<open>y + l > L\<close> and \<open>l\<close> otherwise; the thickness is passed on as given.
\<close>

theorem add_cube_clip:
  "add_cube self x y z w l t True mat_id s =
     (if x \<ge> width self \<or> y \<ge> length_y self then s
      else s\<lparr>vs := vs s @ cube_vs x y z (if x + w > width self then width self - x else w)
                              (if y + l > length_y self then length_y self - y else l) t,
             fs := fs s @ cube_fs (length (vs s)),
             ms := ms s @ replicate 6 mat_id\<rparr>)
   \<and> length (cube_vs x y z w' l' t) = 8
   \<and> set (cube_vs x y z w' l' t) = {x, x + w'} \<times> {y, y + l'} \<times> {z, z + t}
   \<and> length (cube_fs p) = 6
   \<and> (\<forall>f \<in> set (cube_fs p). face_from p f \<and> face_below (p + 8) f)"
  by (simp add: add_cube_def set_cube_vs cube_fs_range)

theorem add_cube_clip_witness:
  "add_cube example_floor 3 1 0 2 2 1 True 0 no_geometry =
     \<lparr>vs = cube_vs 3 1 0 1 1 1, fs = cube_fs 0, ms = replicate 6 0\<rparr>
   \<and> add_cube example_floor 4 0 0 1 1 1 True 0 no_geometry = no_geometry
   \<and> (0, 2, 3, 1) \<in> set (cube_fs 0) \<and> face_from 0 (0, 2, 3, 1) \<and> face_below 8 (0, 2, 3, 1)"
  using add_cube_clip [of example_floor 3 1 0 2 2 1 0 no_geometry 1 1 0]
    add_cube_clip [of example_floor 4 0 0 1 1 1 0 no_geometry 1 1 0]
  by (simp add: no_geometry_def cube_fs_def face_from_def face_below_def)

section \<open>Wood, regular: the sweeps step by step\<close>

lemma wood_regular_rows_stop:
  "\<not> cur_y < length_y self \<Longrightarrow> wood_regular_rows self cur_x bw2 cur_y counter r s = Some (r, s)"
  by (subst wood_regular_rows.simps) simp

lemma wood_regular_board_plain:
  "\<not> vary_thickness self \<Longrightarrow> \<not> vary_length self \<Longrightarrow>
   wood_regular_board self cur_y counter r =
     (thickness self,
      if cur_y + board_length self > length_y self then length_y self - cur_y
      else board_length self, r)"
  by (simp add: wood_regular_board_def)

lemma wood_regular_column_plain:
  "\<not> vary_width self \<Longrightarrow>
   wood_regular_column self cur_x r =
     (if board_width self + cur_x > width self then width self - cur_x else board_width self, r)"
  by (simp add: wood_regular_column_def)

lemma wood_regular_rows_step:
  "cur_y < length_y self \<Longrightarrow> wood_regular_board self cur_y counter r = (z, bl2, r') \<Longrightarrow>
   wood_regular_rows self cur_x bw2 cur_y counter r s =
     wood_regular_rows self cur_x bw2 (cur_y + (bl2 + length_spacing self)) (counter + 1) r'
       (add_cube self cur_x cur_y 0 bw2 bl2 z True 0 s)"
  by (subst wood_regular_rows.simps) simp

lemma wood_regular_cols_stop:
  "\<not> cur_x < width self \<Longrightarrow> wood_regular_cols self cur_x r s = Some (r, s)"
  by (subst wood_regular_cols.simps) simp

lemma wood_regular_cols_step:
  "cur_x < width self \<Longrightarrow> wood_regular_column self cur_x r = (bw2, r') \<Longrightarrow>
   wood_regular_cols self cur_x r s =
     Option.bind (wood_regular_rows self cur_x bw2 0 1 r' s)
       (\<lambda>(r, s). wood_regular_cols self (cur_x + (bw2 + width_spacing self)) r s)"
  by (subst wood_regular_cols.simps) simp

lemma example_run:
  "update_data example_floor r s0 =
     Some (Inr (r, \<lparr>vs = cube_vs 0 0 0 1 1 1 @ cube_vs 0 1 0 1 1 1 @ cube_vs 1 0 0 1 1 1
                        @ cube_vs 1 1 0 1 1 1 @ cube_vs 2 0 0 1 1 1 @ cube_vs 2 1 0 1 1 1
                        @ cube_vs 3 0 0 1 1 1 @ cube_vs 3 1 0 1 1 1,
                   fs = cube_fs 0 @ cube_fs 8 @ cube_fs 16 @ cube_fs 24 @ cube_fs 32 @ cube_fs 40
                        @ cube_fs 48 @ cube_fs 56,
                   ms = replicate 48 0\<rparr>))"
  by (simp add: update_data_def wood_regular_def no_geometry_def
      wood_regular_cols_step wood_regular_cols_stop wood_regular_rows_step wood_regular_rows_stop
      wood_regular_board_plain wood_regular_column_plain add_cube_inside replicate_add [symmetric])

text \<open>
  C6. With \<open>W = 4\<close>, \<open>L = 2\<close>, the wood regular style, boards of 1 by 1, no spacing and no
  variance, a run returns eight boxes in four columns of two rows: 64 vertices, 48 faces,
  every material id 0.
\<close>

theorem wood_regular_example:
  "\<exists>s. update_data example_floor r s0 = Some (Inr (r, s))
     \<and> footprints (vs s) =
         [(0, 0, 1, 1), (0, 1, 1, 1), (1, 0, 1, 1), (1, 1, 1, 1),
          (2, 0, 1, 1), (2, 1, 1, 1), (3, 0, 1, 1), (3, 1, 1, 1)]
     \<and> length (vs s) = 64 \<and> length (fs s) = 48 \<and> ms s = replicate 48 0"
  by (simp add: example_run) (simp add: cube_vs_def)

section \<open>The accessors\<close>

text \<open>
  C10. The accessors \<^verbatim>\<open>matids\<close> and \<^verbatim>\<open>uvs\<close> return the empty list whatever the
  buffers hold, so no material id collected in \<^verbatim>\<open>ms\<close> is visible through them.
\<close>

theorem matids_uvs_empty: "matids s = [] \<and> uvs s = []"
  by (simp add: matids_def uvs_def)

section \<open>Validated ranges and the sweeps of the regular styles\<close>


lemma validated_pos:
  "validated self \<Longrightarrow> 0 < width self \<and> 0 < length_y self \<and> 0 \<le> spacing self \<and> 0 < thickness self
     \<and> 0 < board_width self \<and> 0 < board_length self \<and> 0 \<le> width_spacing self
     \<and> 0 \<le> length_spacing self \<and> 0 < tile_width self \<and> 0 < tile_length self
     \<and> 0 < offset self"
  by (simp add: validated_def FOOT_def INCH_def)

lemma validated_variance:
  "validated self \<Longrightarrow> 0 \<le> thickness_variance self \<and> thickness_variance self \<le> 100
     \<and> 0 \<le> width_variance self \<and> width_variance self \<le> 100
     \<and> 0 \<le> length_variance self \<and> length_variance self \<le> 100
     \<and> 0 \<le> offset_variance self \<and> offset_variance self \<le> 100 \<and> offset self \<le> 100"
  by (simp add: validated_def)

lemma uniform_range:
  assumes "unit_draws r" "a \<le> b" "uniform a b r = (v, r')"
  shows "a \<le> v \<and> v \<le> b \<and> unit_draws r'"
proof -
  have u: "0 \<le> r 0" "r 0 \<le> 1" using assms(1) by (simp_all add: unit_draws_def)
  have v: "v = a + (b - a) * r 0" and r': "r' = (\<lambda>n. r (Suc n))"
    using assms(3) by (simp_all add: uniform_def)
  have "0 \<le> (b - a) * r 0" using u assms(2) by simp
  moreover have "(b - a) * r 0 \<le> (b - a) * 1"
    using u assms(2) by (intro mult_left_mono) simp_all
  ultimately show ?thesis using v r' assms(1) by (simp add: unit_draws_def)
qed

lemma variance_band:
  fixes n pc :: real
  assumes "0 < n" "0 \<le> pc" "pc \<le> 100"
  shows "0 \<le> n * (pc / 100) * 0.99 \<and> n * (pc / 100) * 0.99 \<le> n * (99 / 100)"
proof -
  have "pc / 100 \<le> 1" "0 \<le> pc / 100" using assms by simp_all
  then have "n * (pc / 100) \<le> n * 1" "0 \<le> n * (pc / 100)"
    using assms(1) by (simp_all add: mult_left_le)
  then show ?thesis by simp
qed

lemma vary_draw:
  assumes u: "unit_draws r" and n: "0 < n" "0 \<le> pc" "pc \<le> 100"
    and d: "d = n * (pc / 100) * 0.99 \<or> d = n * 0.99 * (pc / 100)"
    and s: "uniform (n - d) (n + d) r = (v, r')"
  shows "n / 100 \<le> v \<and> unit_draws r'"
proof -
  have "d = n * (pc / 100) * 0.99" using d by auto
  with variance_band [OF n] have b: "0 \<le> d" "d \<le> n * (99 / 100)" by simp_all
  then have "n - d \<le> n + d" by simp
  from uniform_range [OF u this s]
  have "n - d \<le> v" and "unit_draws r'" by blast+
  then show ?thesis using b(2) by simp
qed

lemma wood_regular_board_valid:
  assumes v: "validated self" and u: "unit_draws r" and c: "cur_y < length_y self"
    and b: "wood_regular_board self cur_y counter r = (z, bl2, r')"
  shows "(board_length self / 100 \<le> bl2 \<and> cur_y + bl2 \<le> length_y self \<or> bl2 = length_y self - cur_y)
     \<and> 0 < bl2 \<and> unit_draws r'"
proof -
  note pos = validated_pos [OF v] and var = validated_variance [OF v]
  define dz where "dz = thickness self * 0.99 * (thickness_variance self / 100)"
  define dl where "dl = board_length self * (length_variance self / 100) * 0.99"
  obtain z1 r1 where s1: "(if vary_thickness self
        then uniform (thickness self - dz) (thickness self + dz) r
        else (thickness self, r)) = (z1, r1)" by force
  have u1: "unit_draws r1"
  proof (cases "vary_thickness self")
    case True
    with s1 have "uniform (thickness self - dz) (thickness self + dz) r = (z1, r1)"
      by (simp only: if_True)
    from vary_draw [OF u _ _ _ _ this, of "thickness_variance self"] pos var
    show ?thesis by (simp add: dz_def)
  next
    case False with s1 u show ?thesis by simp
  qed
  obtain l1 r2 where s2: "(if vary_length self
        then uniform (board_length self - dl) (board_length self + dl) r1
        else (board_length self, r1)) = (l1, r2)" by force
  have u2: "board_length self / 100 \<le> l1 \<and> unit_draws r2"
  proof (cases "vary_length self")
    case True
    with s2 have "uniform (board_length self - dl) (board_length self + dl) r1 = (l1, r2)"
      by (simp only: if_True)
    from vary_draw [OF u1 _ _ _ _ this, of "length_variance self"] pos var
    show ?thesis by (simp add: dl_def)
  next
    case False with s2 u1 pos show ?thesis by auto
  qed
  have "bl2 = (if (counter \<ge> max_boards self \<and> vary_length self) \<or> cur_y + l1 > length_y self
                 then length_y self - cur_y else l1) \<and> r' = r2"
    using b s1 s2 unfolding wood_regular_board_def Let_def dz_def dl_def by (simp only: prod.case prod.inject)
  then show ?thesis using u2 c pos by auto
qed

lemma wood_regular_rows_rule:
  assumes run: "wood_regular_rows self cur_x bw2 cur_y counter r s = Some res"
    and P: "P s"
    and step: "\<And>y l z s. P s \<Longrightarrow> (G \<longrightarrow> 0 \<le> y \<and> 0 < l) \<Longrightarrow> P (add_cube self cur_x y 0 bw2 l z True 0 s)"
    and G: "G \<Longrightarrow> validated self \<and> unit_draws r \<and> 0 \<le> cur_y"
  shows "P (snd res) \<and> (G \<longrightarrow> unit_draws (fst res))"
proof -
  define Q where "Q = (\<lambda>self' (cx::real) (bw::real) (cy::real) (cnt::int) (r::rng) s (res::rng \<times> buffers).
     self' = self \<longrightarrow> cx = cur_x \<longrightarrow> bw = bw2 \<longrightarrow> P s \<longrightarrow> (G \<longrightarrow> unit_draws r \<and> 0 \<le> cy)
       \<longrightarrow> P (snd res) \<and> (G \<longrightarrow> unit_draws (fst res)))"
  have "Q self cur_x bw2 cur_y counter r s res"
  proof (rule wood_regular_rows.raw_induct [where P = Q, OF _ run], goal_cases)
    case (1 rows self' cx bw cy cnt r s res)
    note IH = 1(1) and body = 1(2)
    show ?case
      unfolding Q_def
    proof (intro impI)
      assume eq: "self' = self" "cx = cur_x" "bw = bw2" and Ps: "P s"
        and Gs: "G \<longrightarrow> unit_draws r \<and> 0 \<le> cy"
      show "P (snd res) \<and> (G \<longrightarrow> unit_draws (fst res))"
      proof (cases "cy < length_y self")
        case False
        with body eq have "res = (r, s)" by simp
        with Ps Gs show ?thesis by simp
      next
        case True
        obtain z bl2 r' where b: "wood_regular_board self cy cnt r = (z, bl2, r')"
          by (cases "wood_regular_board self cy cnt r") auto
        have valid: "0 < bl2 \<and> unit_draws r'" if G
          using wood_regular_board_valid [OF _ _ True b] G Gs that by blast
        from body eq True b
        have "rows self cur_x bw2 (cy + (bl2 + length_spacing self)) (cnt + 1) r'
                (add_cube self cur_x cy 0 bw2 bl2 z True 0 s) = Some res" by simp
        from IH [OF this] have "Q self cur_x bw2 (cy + (bl2 + length_spacing self)) (cnt + 1) r'
                (add_cube self cur_x cy 0 bw2 bl2 z True 0 s) res" .
        moreover have "P (add_cube self cur_x cy 0 bw2 bl2 z True 0 s)"
          using step [OF Ps] valid Gs by blast
        moreover have "G \<longrightarrow> unit_draws r' \<and> 0 \<le> cy + (bl2 + length_spacing self)"
          using valid Gs G validated_pos [of self] by auto
        ultimately show ?thesis by (simp add: Q_def)
      qed
    qed
  qed
  then show ?thesis using P G by (simp add: Q_def)
qed


lemma wood_regular_column_valid:
  assumes v: "validated self" and u: "unit_draws r" and c: "cur_x < width self"
    and b: "wood_regular_column self cur_x r = (bw2, r')"
  shows "(board_width self / 100 \<le> bw2 \<and> cur_x + bw2 \<le> width self \<or> bw2 = width self - cur_x)
     \<and> 0 < bw2 \<and> unit_draws r'"
proof -
  note pos = validated_pos [OF v] and var = validated_variance [OF v]
  define dw where "dw = board_width self * (width_variance self / 100) * 0.99"
  obtain w1 r1 where s1: "(if vary_width self
        then uniform (board_width self - dw) (board_width self + dw) r
        else (board_width self, r)) = (w1, r1)" by force
  have u1: "board_width self / 100 \<le> w1 \<and> unit_draws r1"
  proof (cases "vary_width self")
    case True
    with s1 have "uniform (board_width self - dw) (board_width self + dw) r = (w1, r1)"
      by (simp only: if_True)
    from vary_draw [OF u _ _ _ _ this, of "width_variance self"] pos var
    show ?thesis by (simp add: dw_def)
  next
    case False with s1 u pos show ?thesis by auto
  qed
  have "bw2 = (if w1 + cur_x > width self then width self - cur_x else w1) \<and> r' = r1"
    using b s1 unfolding wood_regular_column_def Let_def dw_def
    by (simp only: prod.case prod.inject)
  then show ?thesis using u1 c pos by auto
qed

lemma wood_regular_cols_rule:
  assumes run: "wood_regular_cols self cur_x r s = Some res"
    and P: "P s"
    and step: "\<And>x y w l z s. P s \<Longrightarrow> (G \<longrightarrow> 0 \<le> x \<and> 0 \<le> y \<and> 0 < w \<and> 0 < l)
                 \<Longrightarrow> P (add_cube self x y 0 w l z True 0 s)"
    and G: "G \<Longrightarrow> validated self \<and> unit_draws r \<and> 0 \<le> cur_x"
  shows "P (snd res) \<and> (G \<longrightarrow> unit_draws (fst res))"
proof -
  define Q where "Q = (\<lambda>self' (cx::real) (r::rng) s (res::rng \<times> buffers).
     self' = self \<longrightarrow> P s \<longrightarrow> (G \<longrightarrow> unit_draws r \<and> 0 \<le> cx)
       \<longrightarrow> P (snd res) \<and> (G \<longrightarrow> unit_draws (fst res)))"
  have "Q self cur_x r s res"
  proof (rule wood_regular_cols.raw_induct [where P = Q, OF _ run], goal_cases)
    case (1 cols self' cx r s res)
    note IH = 1(1) and body = 1(2)
    show ?case
      unfolding Q_def
    proof (intro impI)
      assume eq: "self' = self" and Ps: "P s" and Gs: "G \<longrightarrow> unit_draws r \<and> 0 \<le> cx"
      show "P (snd res) \<and> (G \<longrightarrow> unit_draws (fst res))"
      proof (cases "cx < width self")
        case False
        with body eq have "res = (r, s)" by simp
        with Ps Gs show ?thesis by simp
      next
        case True
        obtain bw2 r' where b: "wood_regular_column self cx r = (bw2, r')"
          by (cases "wood_regular_column self cx r") auto
        have valid: "0 < bw2 \<and> unit_draws r'" if G
          using wood_regular_column_valid [OF _ _ True b] G Gs that by blast
        from body eq True b obtain res1 where
          rows: "wood_regular_rows self cx bw2 0 1 r' s = Some res1" and
          rest: "cols self (cx + (bw2 + width_spacing self)) (fst res1) (snd res1) = Some res"
          by (auto simp add: bind_eq_Some_conv)
        have "P (snd res1) \<and> (G \<longrightarrow> unit_draws (fst res1))"
        proof (rule wood_regular_rows_rule [where P = P and G = G, OF rows Ps])
          fix y l z :: real and s assume "P s" "G \<longrightarrow> 0 \<le> y \<and> 0 < l"
          then show "P (add_cube self cx y 0 bw2 l z True 0 s)"
            using step [of s cx y bw2 l z] valid Gs by blast
        next
          assume G then show "validated self \<and> unit_draws r' \<and> (0::real) \<le> 0"
            using valid G by simp
        qed
        moreover from IH [OF rest]
        have "Q self (cx + (bw2 + width_spacing self)) (fst res1) (snd res1) res" .
        moreover have "G \<longrightarrow> 0 \<le> cx + (bw2 + width_spacing self)"
          using valid Gs G validated_pos [of self] by auto
        ultimately show ?thesis by (simp add: Q_def)
      qed
    qed
  qed
  then show ?thesis using P G by (simp add: Q_def)
qed

lemma offset_draw:
  assumes u: "unit_draws r" and n: "0 < (n::real)" "0 \<le> ov" "ov \<le> 100"
    and s: "uniform (n / 2 - n * 0.0049 * ov) (n / 2 + n * 0.0049 * ov) r = (v, r')"
  shows "n / 100 \<le> v \<and> unit_draws r'"
proof -
  define d where "d = n * 0.0049 * ov"
  have "n * ov \<le> n * 100" "0 \<le> n * ov" using n by simp_all
  then have b: "0 \<le> d" "d \<le> n * (49 / 100)" by (simp_all add: d_def)
  then have "n / 2 - d \<le> n / 2 + d" by simp
  from uniform_range [OF u this] s
  have "n / 2 - d \<le> v" and "unit_draws r'" by (simp_all add: d_def)
  then show ?thesis using b(2) by simp
qed

lemma tile_regular_tile_valid:
  assumes v: "validated self" and u: "unit_draws r" and c: "cur_x < width self"
    and o: "0 < o_frac"
    and b: "tile_regular_tile self o_frac off cur_x r = (tw2, r')"
  shows "(min (tile_width self * o_frac) (min (tile_length self / 100) (tile_width self)) \<le> tw2
          \<or> tw2 = width self - cur_x) \<and> 0 < tw2 \<and> unit_draws r'"
proof -
  note pos = validated_pos [OF v] and var = validated_variance [OF v]
  define A where "A = (cur_x < width self \<and> width self < cur_x + tile_width self)"
  define B where "B = (cur_x = 0 \<and> off \<and> offset_tiles self \<and> \<not> random_offset self)"
  define C where "C = (cur_x = 0 \<and> offset_tiles self \<and> random_offset self)"
  define U where "U = uniform (tile_length self / 2 - tile_length self * 0.0049 * offset_variance self)
        (tile_length self / 2 + tile_length self * 0.0049 * offset_variance self) r"
  have b': "(if A then (width self - cur_x, r) else if B then (tile_width self * o_frac, r)
             else if C then U else (tile_width self, r)) = (tw2, r')"
    using b unfolding tile_regular_tile_def Let_def A_def B_def C_def U_def .
  consider (clip) A | (fixed) "\<not> A" B | (random) "\<not> A" "\<not> B" C | (plain) "\<not> A" "\<not> B" "\<not> C"
    by blast
  then show ?thesis
  proof cases
    case clip
    with b' have "tw2 = width self - cur_x" "r' = r" by simp_all
    with u c show ?thesis by simp
  next
    case fixed
    with b' have "tw2 = tile_width self * o_frac" "r' = r" by simp_all
    with u o pos show ?thesis by (simp add: min_le_iff_disj)
  next
    case random
    with b' have "U = (tw2, r')" by simp
    from offset_draw [OF u _ _ _ this [unfolded U_def]] pos var
    have "tile_length self / 100 \<le> tw2 \<and> unit_draws r'" by simp
    with pos show ?thesis by (auto simp add: min_le_iff_disj)
  next
    case plain
    with b' have "tw2 = tile_width self" "r' = r" by simp_all
    with u pos show ?thesis by (simp add: min_le_iff_disj)
  qed
qed

lemma tile_regular_cols_rule:
  assumes run: "tile_regular_cols self o_frac off cur_y tl2 cur_x r s = Some res"
    and P: "P s"
    and step: "\<And>x w s. P s \<Longrightarrow> (G \<longrightarrow> 0 \<le> x \<and> 0 < w)
                 \<Longrightarrow> P (add_cube self x cur_y 0 w tl2 (thickness self) True 0 s)"
    and G: "G \<Longrightarrow> validated self \<and> unit_draws r \<and> 0 \<le> cur_x \<and> 0 < o_frac"
  shows "P (snd res) \<and> (G \<longrightarrow> unit_draws (fst res))"
proof -
  define Q where "Q = (\<lambda>self' (o'::real) (off::bool) (cy::real) (tl::real) (cx::real) (r::rng) s
       (res::rng \<times> buffers).
     self' = self \<longrightarrow> o' = o_frac \<longrightarrow> cy = cur_y \<longrightarrow> tl = tl2 \<longrightarrow> P s
       \<longrightarrow> (G \<longrightarrow> unit_draws r \<and> 0 \<le> cx)
       \<longrightarrow> P (snd res) \<and> (G \<longrightarrow> unit_draws (fst res)))"
  have "Q self o_frac off cur_y tl2 cur_x r s res"
  proof (rule tile_regular_cols.raw_induct [where P = Q, OF _ run], goal_cases)
    case (1 cols self' o' off cy tl cx r s res)
    note IH = 1(1) and body = 1(2)
    show ?case
      unfolding Q_def
    proof (intro impI)
      assume eq: "self' = self" "o' = o_frac" "cy = cur_y" "tl = tl2" and Ps: "P s"
        and Gs: "G \<longrightarrow> unit_draws r \<and> 0 \<le> cx"
      show "P (snd res) \<and> (G \<longrightarrow> unit_draws (fst res))"
      proof (cases "cx < width self")
        case False
        with body eq have "res = (r, s)" by simp
        with Ps Gs show ?thesis by simp
      next
        case True
        obtain tw2 r' where b: "tile_regular_tile self o_frac off cx r = (tw2, r')"
          by (cases "tile_regular_tile self o_frac off cx r") auto
        have valid: "0 < tw2 \<and> unit_draws r'" if G
          using tile_regular_tile_valid [OF _ _ True _ b] G Gs that by blast
        from body eq True b
        have "cols self o_frac off cur_y tl2 (cx + (tw2 + spacing self)) r'
                (add_cube self cx cur_y 0 tw2 tl2 (thickness self) True 0 s) = Some res" by simp
        from IH [OF this] have "Q self o_frac off cur_y tl2 (cx + (tw2 + spacing self)) r'
                (add_cube self cx cur_y 0 tw2 tl2 (thickness self) True 0 s) res" .
        moreover have "P (add_cube self cx cur_y 0 tw2 tl2 (thickness self) True 0 s)"
          using step [OF Ps] valid Gs by blast
        moreover have "G \<longrightarrow> unit_draws r' \<and> 0 \<le> cx + (tw2 + spacing self)"
          using valid Gs G validated_pos [of self] by auto
        ultimately show ?thesis by (simp add: Q_def)
      qed
    qed
  qed
  then show ?thesis using P G by (simp add: Q_def)
qed

lemma tile_regular_rows_rule:
  assumes run: "tile_regular_rows self o_frac off cur_y r s = Some res"
    and P: "P s"
    and step: "\<And>x y w l z s. P s \<Longrightarrow> (G \<longrightarrow> 0 \<le> x \<and> 0 \<le> y \<and> 0 < w \<and> 0 < l)
                 \<Longrightarrow> P (add_cube self x y 0 w l z True 0 s)"
    and G: "G \<Longrightarrow> validated self \<and> unit_draws r \<and> 0 \<le> cur_y \<and> 0 < o_frac"
  shows "P (snd res) \<and> (G \<longrightarrow> unit_draws (fst res))"
proof -
  define Q where "Q = (\<lambda>self' (o'::real) (off::bool) (cy::real) (r::rng) s (res::rng \<times> buffers).
     self' = self \<longrightarrow> o' = o_frac \<longrightarrow> P s \<longrightarrow> (G \<longrightarrow> unit_draws r \<and> 0 \<le> cy)
       \<longrightarrow> P (snd res) \<and> (G \<longrightarrow> unit_draws (fst res)))"
  have "Q self o_frac off cur_y r s res"
  proof (rule tile_regular_rows.raw_induct [where P = Q, OF _ run], goal_cases)
    case (1 rows self' o' off cy r s res)
    note IH = 1(1) and body = 1(2)
    show ?case
      unfolding Q_def
    proof (intro impI)
      assume eq: "self' = self" "o' = o_frac" and Ps: "P s"
        and Gs: "G \<longrightarrow> unit_draws r \<and> 0 \<le> cy"
      show "P (snd res) \<and> (G \<longrightarrow> unit_draws (fst res))"
      proof (cases "cy < length_y self")
        case False
        with body eq have "res = (r, s)" by simp
        with Ps Gs show ?thesis by simp
      next
        case True
        define tl2 where "tl2 = (if cy < length_y self \<and> length_y self < cy + tile_length self
                   then length_y self - cy else tile_length self)"
        have tl2: "0 < tl2" if G
          using G [OF that] validated_pos [of self] True by (simp add: tl2_def)
        from body eq True obtain res1 where
          cols: "tile_regular_cols self o_frac off cy tl2 0 r s = Some res1" and
          rest: "rows self o_frac (\<not> off) (cy + (tl2 + spacing self)) (fst res1) (snd res1) = Some res"
          by (auto simp add: bind_eq_Some_conv Let_def tl2_def)
        have "P (snd res1) \<and> (G \<longrightarrow> unit_draws (fst res1))"
        proof (rule tile_regular_cols_rule [where P = P and G = G, OF cols Ps])
          fix x w :: real and s assume "P s" "G \<longrightarrow> 0 \<le> x \<and> 0 < w"
          then show "P (add_cube self x cy 0 w tl2 (thickness self) True 0 s)"
            using step [of s x cy w tl2 "thickness self"] tl2 Gs by blast
        next
          assume G then show "validated self \<and> unit_draws r \<and> (0::real) \<le> 0 \<and> 0 < o_frac"
            using Gs G by simp
        qed
        moreover from IH [OF rest]
        have "Q self o_frac (\<not> off) (cy + (tl2 + spacing self)) (fst res1) (snd res1) res" .
        moreover have "G \<longrightarrow> 0 \<le> cy + (tl2 + spacing self)"
          using tl2 Gs G validated_pos [of self] by auto
        ultimately show ?thesis by (simp add: Q_def)
      qed
    qed
  qed
  then show ?thesis using P G by (simp add: Q_def)
qed

lemma tile_large_small_cell_rule:
  assumes cell: "tile_large_small_cell self row cur_x cur_y step_back s = (cx', cy', sb', s')"
    and P: "P s"
    and step: "\<And>x y w l z s. P s \<Longrightarrow> P (add_cube self x y 0 w l z True 0 s)"
  shows "P s'"
  using cell P
  by (auto simp add: tile_large_small_cell_def Let_def step split: if_splits)

lemma tile_large_small_cols_rule:
  assumes run: "tile_large_small_cols self row cur_x cur_y step_back s = Some s'"
    and P: "P s"
    and step: "\<And>x y w l z s. P s \<Longrightarrow> P (add_cube self x y 0 w l z True 0 s)"
  shows "P s'"
proof -
  define Q where "Q = (\<lambda>self' (row::nat) (cx::real) (cy::real) (sb::bool) s s'.
     self' = self \<longrightarrow> P s \<longrightarrow> P s')"
  have "Q self row cur_x cur_y step_back s s'"
  proof (rule tile_large_small_cols.raw_induct [where P = Q, OF _ run], goal_cases)
    case (1 cols self' row cx cy sb s s')
    note IH = 1(1) and body = 1(2)
    show ?case
      unfolding Q_def
    proof (intro impI)
      assume eq: "self' = self" and Ps: "P s"
      show "P s'"
      proof (cases "cx < width self")
        case False
        with body eq Ps show ?thesis by simp
      next
        case True
        obtain cx1 cy1 sb1 s1 where c: "tile_large_small_cell self row cx cy sb s = (cx1, cy1, sb1, s1)"
          by (cases "tile_large_small_cell self row cx cy sb s") auto
        from body eq True c have "cols self row cx1 cy1 sb1 s1 = Some s'" by simp
        from IH [OF this] tile_large_small_cell_rule [where P = P, OF c Ps step]
        show ?thesis by (simp add: Q_def)
      qed
    qed
  qed
  then show ?thesis using P by (simp add: Q_def)
qed

lemma tile_large_small_rows_rule:
  assumes run: "tile_large_small_rows self row cur_y pre_y s = Some s'"
    and P: "P s"
    and step: "\<And>x y w l z s. P s \<Longrightarrow> P (add_cube self x y 0 w l z True 0 s)"
  shows "P s'"
proof -
  define Q where "Q = (\<lambda>self' (row::nat) (cy::real) (py::real) s s'.
     self' = self \<longrightarrow> P s \<longrightarrow> P s')"
  have "Q self row cur_y pre_y s s'"
  proof (rule tile_large_small_rows.raw_induct [where P = Q, OF _ run], goal_cases)
    case (1 rows self' row cy py s s')
    note IH = 1(1) and body = 1(2)
    show ?case
      unfolding Q_def
    proof (intro impI)
      assume eq: "self' = self" and Ps: "P s"
      show "P s'"
      proof (cases "cy < length_y self")
        case False
        with body eq Ps show ?thesis by (simp add: Let_def)
      next
        case True
        from body eq True obtain s1 cx1 cy1 where
          cols: "tile_large_small_cols self row cx1 cy True s = Some s1" and
          rest: "rows self ((row + 1) mod 3) cy1 cy1 s1 = Some s'"
          by (auto simp add: bind_eq_Some_conv Let_def)
        from tile_large_small_cols_rule [where P = P, OF cols Ps step] have "P s1" .
        with IH [OF rest] show ?thesis by (simp add: Q_def)
      qed
    qed
  qed
  then show ?thesis using P by (simp add: Q_def)
qed

section \<open>Wood parquet and the whole run\<close>


lemma parquet_board_length_effect:
  assumes "parquet_board_length self bl z (cx, cy, bw2, bl2, s) = (cx', cy', bw2', bl2', s')"
  shows "s' = s \<or> (\<exists>nv. length nv = 8 \<and>
           s' = s\<lparr>vs := vs s @ nv, fs := fs s @ board_fs (length (vs s)), ms := ms s @ replicate 6 0\<rparr>)"
proof (cases "cx < width self \<and> cy < length_y self")
  case False
  with assms show ?thesis by (auto simp add: parquet_board_length_def)
next
  case True
  define w where "w = (if cx < width self \<and> width self < cx + board_width self
                     then width self - cx else bw2)"
  define l where "l = (if cy < length_y self \<and> length_y self < cy + bl
                     then length_y self - cy else bl2)"
  define nv where "nv = [(cx, cy, 0), (cx, cy, z), (cx + w, cy, z), (cx + w, cy, 0::real),
      (cx, cy + l, 0), (cx, cy + l, z), (cx + w, cy + l, z), (cx + w, cy + l, 0)]"
  have "parquet_board_length self bl z (cx, cy, bw2, bl2, s) = (cx + (w + spacing self), cy, w, l,
      s\<lparr>vs := vs s @ nv, fs := fs s @ board_fs (length (vs s)), ms := ms s @ replicate 6 0\<rparr>)"
    using True by (simp add: parquet_board_length_def Let_def w_def l_def nv_def)
  with assms
  have "s' = s\<lparr>vs := vs s @ nv, fs := fs s @ board_fs (length (vs s)), ms := ms s @ replicate 6 0\<rparr>"
    by simp
  moreover have "length nv = 8" by (simp add: nv_def)
  ultimately show ?thesis by blast
qed

lemma parquet_board_width_effect:
  assumes "parquet_board_width self bl z (cx, cy, bw2, bl2, s) = (cx', cy', bw2', bl2', s')"
  shows "s' = s \<or> (\<exists>nv. length nv = 8 \<and>
           s' = s\<lparr>vs := vs s @ nv, fs := fs s @ board_fs (length (vs s)), ms := ms s @ replicate 6 0\<rparr>)"
proof (cases "cx < width self \<and> cy < length_y self")
  case False
  with assms show ?thesis by (auto simp add: parquet_board_width_def)
next
  case True
  define l where "l = (if cx < width self \<and> width self < cx + bl
                     then width self - cx else bl2)"
  define w where "w = (if cy < length_y self \<and> length_y self < cy + board_width self
                     then length_y self - cy else bw2)"
  define nv where "nv = [(cx, cy + w, 0), (cx, cy + w, z), (cx, cy, z), (cx, cy, 0::real),
      (cx + l, cy + w, 0), (cx + l, cy + w, z), (cx + l, cy, z), (cx + l, cy, 0)]"
  have "parquet_board_width self bl z (cx, cy, bw2, bl2, s) = (cx, cy + (w + spacing self), w, l,
      s\<lparr>vs := vs s @ nv, fs := fs s @ board_fs (length (vs s)), ms := ms s @ replicate 6 0\<rparr>)"
    using True by (simp add: parquet_board_width_def Let_def w_def l_def nv_def)
  with assms
  have "s' = s\<lparr>vs := vs s @ nv, fs := fs s @ board_fs (length (vs s)), ms := ms s @ replicate 6 0\<rparr>"
    by simp
  moreover have "length nv = 8" by (simp add: nv_def)
  ultimately show ?thesis by blast
qed

lemma for_range_rule:
  assumes "\<And>st. P st \<Longrightarrow> P (body st)" and "P st"
  shows "P (for_range n body st)"
  using assms(2) by (induction n arbitrary: st) (simp_all add: assms(1))

lemma wood_parquet_group_rule:
  assumes g: "wood_parquet_group self bl z cur_x cur_y orient_length s = (cx', cy', s')"
    and P: "P s"
    and step: "\<And>nv s. P s \<Longrightarrow> length nv = 8 \<Longrightarrow>
       P (s\<lparr>vs := vs s @ nv, fs := fs s @ board_fs (length (vs s)), ms := ms s @ replicate 6 0\<rparr>)"
  shows "P s'"
proof -
  define R :: "group_state \<Rightarrow> bool" where "R = (\<lambda>st. P (snd (snd (snd (snd st)))))"
  have l: "R (parquet_board_length self bl z st)" if "R st" for st
  proof -
    obtain cx cy bw2 bl2 s0 where st: "st = (cx, cy, bw2, bl2, s0)" by (cases st) auto
    obtain cx1 cy1 bw21 bl21 s1 where
      e: "parquet_board_length self bl z (cx, cy, bw2, bl2, s0) = (cx1, cy1, bw21, bl21, s1)"
      by (cases "parquet_board_length self bl z (cx, cy, bw2, bl2, s0)") auto
    from that st have "P s0" by (simp add: R_def)
    with parquet_board_length_effect [OF e] step [of s0] have "P s1" by blast
    with e st show ?thesis by (simp add: R_def)
  qed
  have w: "R (parquet_board_width self bl z st)" if "R st" for st
  proof -
    obtain cx cy bw2 bl2 s0 where st: "st = (cx, cy, bw2, bl2, s0)" by (cases st) auto
    obtain cx1 cy1 bw21 bl21 s1 where
      e: "parquet_board_width self bl z (cx, cy, bw2, bl2, s0) = (cx1, cy1, bw21, bl21, s1)"
      by (cases "parquet_board_width self bl z (cx, cy, bw2, bl2, s0)") auto
    from that st have "P s0" by (simp add: R_def)
    with parquet_board_width_effect [OF e] step [of s0] have "P s1" by blast
    with e st show ?thesis by (simp add: R_def)
  qed
  have R0: "R (cur_x, cur_y, board_width self, bl, s)" using P by (simp add: R_def)
  show ?thesis
  proof (cases orient_length)
    case True
    from for_range_rule [of R "parquet_board_length self bl z", OF l R0]
    have "R (for_range (nat (boards_in_group self)) (parquet_board_length self bl z)
              (cur_x, cur_y, board_width self, bl, s))" .
    moreover obtain a b c d e where
      "for_range (nat (boards_in_group self)) (parquet_board_length self bl z)
              (cur_x, cur_y, board_width self, bl, s) = (a, b, c, d, e)"
      using prod_cases5 by blast
    ultimately show ?thesis using g True
      by (simp add: wood_parquet_group_def R_def)
  next
    case False
    from for_range_rule [of R "parquet_board_width self bl z", OF w R0]
    have "R (for_range (nat (boards_in_group self)) (parquet_board_width self bl z)
              (cur_x, cur_y, board_width self, bl, s))" .
    moreover obtain a b c d e where
      "for_range (nat (boards_in_group self)) (parquet_board_width self bl z)
              (cur_x, cur_y, board_width self, bl, s) = (a, b, c, d, e)"
      using prod_cases5 by blast
    ultimately show ?thesis using g False
      by (simp add: wood_parquet_group_def R_def)
  qed
qed

lemma wood_parquet_groups_rule:
  assumes run: "wood_parquet_groups self bl z cur_x cur_y orient_length s = Some s'"
    and P: "P s"
    and step: "\<And>nv s. P s \<Longrightarrow> length nv = 8 \<Longrightarrow>
       P (s\<lparr>vs := vs s @ nv, fs := fs s @ board_fs (length (vs s)), ms := ms s @ replicate 6 0\<rparr>)"
  shows "P s'"
proof -
  define Q where "Q = (\<lambda>self' (bl'::real) (z'::real) (cx::real) (cy::real) (ol::bool) s s'.
     self' = self \<longrightarrow> P s \<longrightarrow> P s')"
  have "Q self bl z cur_x cur_y orient_length s s'"
  proof (rule wood_parquet_groups.raw_induct [where P = Q, OF _ run], goal_cases)
    case (1 groups self' bl z cx cy ol s s')
    note IH = 1(1) and body = 1(2)
    show ?case
      unfolding Q_def
    proof (intro impI)
      assume eq: "self' = self" and Ps: "P s"
      show "P s'"
      proof (cases "cy < length_y self")
        case False
        with body eq Ps show ?thesis by simp
      next
        case True
        obtain cx1 cy1 s1 where c: "wood_parquet_group self bl z cx cy ol s = (cx1, cy1, s1)"
          by (cases "wood_parquet_group self bl z cx cy ol s") auto
        from body eq True c have "groups self bl z cx1 cy1 (\<not> ol) s1 = Some s'" by simp
        from IH [OF this] have "Q self bl z cx1 cy1 (\<not> ol) s1 s'" .
        moreover have "P s1"
          using c Ps step by (rule wood_parquet_group_rule [where P = P])
        ultimately show ?thesis by (simp add: Q_def)
      qed
    qed
  qed
  then show ?thesis using P by (simp add: Q_def)
qed

lemma wood_parquet_cols_rule:
  assumes run: "wood_parquet_cols self bl z cur_x start_orient_length s = Some s'"
    and P: "P s"
    and step: "\<And>nv s. P s \<Longrightarrow> length nv = 8 \<Longrightarrow>
       P (s\<lparr>vs := vs s @ nv, fs := fs s @ board_fs (length (vs s)), ms := ms s @ replicate 6 0\<rparr>)"
  shows "P s'"
proof -
  define Q where "Q = (\<lambda>self' (bl'::real) (z'::real) (cx::real) (ol::bool) s s'.
     self' = self \<longrightarrow> P s \<longrightarrow> P s')"
  have "Q self bl z cur_x start_orient_length s s'"
  proof (rule wood_parquet_cols.raw_induct [where P = Q, OF _ run], goal_cases)
    case (1 cols self' bl z cx ol s s')
    note IH = 1(1) and body = 1(2)
    show ?case
      unfolding Q_def
    proof (intro impI)
      assume eq: "self' = self" and Ps: "P s"
      show "P s'"
      proof (cases "cx < width self")
        case False
        with body eq Ps show ?thesis by simp
      next
        case True
        from body eq True obtain s1 where
          groups: "wood_parquet_groups self bl z cx 0 ol s = Some s1" and
          rest: "cols self bl z (cx + (bl + spacing self)) (\<not> ol) s1 = Some s'"
          by (auto simp add: bind_eq_Some_conv)
        from wood_parquet_groups_rule [where P = P, OF groups Ps step] have "P s1" .
        with IH [OF rest] show ?thesis by (simp add: Q_def)
      qed
    qed
  qed
  then show ?thesis using P by (simp add: Q_def)
qed

text \<open>Whatever a run of \<^verbatim>\<open>update_data\<close> returns was built from the empty buffers by
  clipped calls of \<^verbatim>\<open>add_cube\<close> and by boards of the parquet style.\<close>

lemma update_data_rule:
  assumes run: "update_data self r s0 = Some (Inr (r', s'))"
    and P: "P no_geometry"
    and cube: "\<And>x y z w l t m s. P s \<Longrightarrow> P (add_cube self x y z w l t True m s)"
    and board: "\<And>nv s. P s \<Longrightarrow> length nv = 8 \<Longrightarrow>
       P (s\<lparr>vs := vs s @ nv, fs := fs s @ board_fs (length (vs s)), ms := ms s @ replicate 6 0\<rparr>)"
  shows "P s'"
proof (cases "floor_material self")
  case Wood
  show ?thesis
  proof (cases "wood_styles self")
    case Regular
    with Wood run have "wood_regular_cols self 0 r no_geometry = Some (r', s')"
      by (auto simp add: update_data_def wood_regular_def)
    from wood_regular_cols_rule [where P = P and G = False, OF this P]
    have "P (snd (r', s'))" using cube by blast
    then show ?thesis by simp
  next
    case Parquet
    with Wood run obtain bl z where "wood_parquet_cols self bl z 0 True no_geometry = Some s'"
      by (auto simp add: update_data_def wood_parquet_def Let_def)
    then show ?thesis using P board by (rule wood_parquet_cols_rule [where P = P])
  next
    case Herring_parquet
    with Wood run P show ?thesis by (auto simp add: update_data_def)
  next
    case Herring
    with Wood run P show ?thesis by (auto simp add: update_data_def)
  qed
next
  case Tile
  have g: "P (tile_grout self no_geometry)" using cube [OF P] by (simp add: tile_grout_def Let_def)
  show ?thesis
  proof (cases "tile_styles self")
    case Regular_tile
    with Tile run obtain o_frac where
      "tile_regular_rows self o_frac False 0 r (tile_grout self no_geometry) = Some (r', s')"
      by (auto simp add: update_data_def tile_regular_def Let_def split: if_splits)
    from tile_regular_rows_rule [where P = P and G = False, OF this g]
    have "P (snd (r', s'))" using cube by blast
    then show ?thesis by simp
  next
    case Large_small
    with Tile run have "tile_large_small_rows self 0 0 0 (tile_grout self no_geometry) = Some s'"
      by (auto simp add: update_data_def tile_large_small_def Let_def)
    then show ?thesis using g cube by (rule tile_large_small_rows_rule [where P = P])
  next
    case Large_many_small
    with Tile run g show ?thesis by (auto simp add: update_data_def Let_def)
  next
    case Hexagon
    with Tile run g show ?thesis by (auto simp add: update_data_def Let_def)
  qed
qed

section \<open>Buffer parity\<close>


lemma board_fs_range: "f \<in> set (board_fs p) \<Longrightarrow> face_below (p + 8) f"
  by (auto simp add: board_fs_def face_below_def)

lemma lockstep_append:
  assumes l: "lockstep s" and nv: "length nv = 8" and nf: "length nf = 6"
    and r: "\<And>f. f \<in> set nf \<Longrightarrow> face_below (length (vs s) + 8) f"
  shows "lockstep (s\<lparr>vs := vs s @ nv, fs := fs s @ nf, ms := ms s @ replicate 6 m\<rparr>)"
proof -
  define b where "b = length (fs s) div 6"
  have n: "length (fs s) = 6 * b" and v: "length (vs s) = 8 * b" and m: "length (ms s) = 6 * b"
    and old: "\<And>k. k < 6 * b \<Longrightarrow> face_below (8 * (k div 6) + 8) (fs s ! k)"
    using l by (auto simp add: lockstep_def b_def)
  have "face_below (8 * (k div 6) + 8) ((fs s @ nf) ! k)" if k: "k < 6 * b + 6" for k
  proof (cases "k < 6 * b")
    case True
    then show ?thesis using old n by (simp add: nth_append)
  next
    case False
    then have d: "k div 6 = b" using k by simp
    have "(fs s @ nf) ! k = nf ! (k - 6 * b)" using False n by (simp add: nth_append)
    moreover have "nf ! (k - 6 * b) \<in> set nf" using k False nf by simp
    ultimately show ?thesis using r v d by simp
  qed
  then show ?thesis using n v m nv nf by (simp add: lockstep_def)
qed

lemma lockstep_add_cube: "lockstep s \<Longrightarrow> lockstep (add_cube self x y z w l t clip m s)"
  by (simp add: add_cube_def Let_def lockstep_append cube_fs_range)

lemma lockstep_board:
  "lockstep s \<Longrightarrow> length nv = 8 \<Longrightarrow>
   lockstep (s\<lparr>vs := vs s @ nv, fs := fs s @ board_fs (length (vs s)), ms := ms s @ replicate 6 0\<rparr>)"
  by (rule lockstep_append) (simp_all add: board_fs_def board_fs_range)

lemma lockstep_no_geometry: "lockstep no_geometry"
  by (simp add: lockstep_def no_geometry_def)

lemma lockstep_faces:
  assumes "lockstep s" "k < length (fs s)"
  shows "face_below (8 * (k div 6) + 8) (fs s ! k) \<and> 8 * (k div 6) + 8 \<le> length (vs s)"
proof -
  define b where "b = length (fs s) div 6"
  have n: "length (fs s) = 6 * b" and v: "length (vs s) = 8 * b"
    using assms(1) by (auto simp add: lockstep_def b_def)
  have "k div 6 < b" using assms(2) n by simp
  then have "8 * (k div 6) + 8 \<le> 8 * b" by simp
  then show ?thesis using assms v by (simp add: lockstep_def)
qed

lemma face_below_mono: "face_below n f \<Longrightarrow> n \<le> m \<Longrightarrow> face_below m f"
  by (auto simp add: face_below_def)

lemma extends_refl: "extends s s"
  by (simp add: extends_def)

lemma extends_trans: "extends a b \<Longrightarrow> extends b c \<Longrightarrow> extends a c"
  by (auto simp add: extends_def)

lemma extends_add_cube: "extends s (add_cube self x y z w l t clip m s)"
  by (simp add: add_cube_def Let_def extends_def)

lemma extends_board:
  "extends s (s\<lparr>vs := vs s @ nv, fs := fs s @ nf, ms := ms s @ nm\<rparr>)"
  by (simp add: extends_def)

lemma update_data_reset: "update_data self r s0 = update_data self r no_geometry"
  by (simp add: update_data_def)

lemma wood_regular_extends:
  assumes "wood_regular self r s = Some res" shows "extends s (snd res)"
proof -
  from assms have "wood_regular_cols self 0 r s = Some res" by (simp add: wood_regular_def)
  from wood_regular_cols_rule [where P = "extends s" and G = False, OF this extends_refl]
  show ?thesis using extends_trans [OF _ extends_add_cube] by blast
qed

lemma wood_parquet_extends:
  assumes "wood_parquet self s = Some s'" shows "extends s s'"
proof -
  from assms obtain bl z where "wood_parquet_cols self bl z 0 True s = Some s'"
    by (auto simp add: wood_parquet_def Let_def)
  then show ?thesis using extends_refl extends_trans [OF _ extends_board]
    by (rule wood_parquet_cols_rule [where P = "extends s"])
qed

lemma tile_grout_extends: "extends s (tile_grout self s)"
  by (simp add: tile_grout_def Let_def extends_add_cube)

lemma tile_regular_extends:
  assumes "tile_regular self r s = Some (Inr res)" shows "extends s (snd res)"
proof -
  from assms obtain o_frac where "tile_regular_rows self o_frac False 0 r s = Some res"
    by (auto simp add: tile_regular_def split: if_splits)
  from tile_regular_rows_rule [where P = "extends s" and G = False, OF this extends_refl]
  show ?thesis using extends_trans [OF _ extends_add_cube] by blast
qed

lemma tile_large_small_extends:
  assumes "tile_large_small self s = Some s'" shows "extends s s'"
proof -
  from assms have "tile_large_small_rows self 0 0 0 s = Some s'"
    by (simp add: tile_large_small_def)
  then show ?thesis using extends_refl extends_trans [OF _ extends_add_cube]
    by (rule tile_large_small_rows_rule [where P = "extends s"])
qed

text \<open>
  C2. After a run of \<^verbatim>\<open>update_data\<close> that returns, for every material and style,
  \<^verbatim>\<open>ms\<close> and \<^verbatim>\<open>fs\<close> have the same length; every index of face number \<open>k\<close> is below
  \<open>8 * (k div 6) + 8\<close>, the number of vertices present when that face was appended, and so
  below the final number of vertices; the run starts from empty buffers whatever the
  buffers held before; and every style, like the grout slab, only appends to the buffers
  it is given.
\<close>

theorem buffer_parity:
  assumes "update_data self r s0 = Some (Inr (r', s'))"
  shows "length (ms s') = length (fs s')
     \<and> (\<forall>k < length (fs s'). face_below (8 * (k div 6) + 8) (fs s' ! k)
            \<and> 8 * (k div 6) + 8 \<le> length (vs s'))
     \<and> (\<forall>f \<in> set (fs s'). face_below (length (vs s')) f)
     \<and> update_data self r s0 = update_data self r no_geometry
     \<and> (\<forall>r s res. wood_regular self r s = Some res \<longrightarrow> extends s (snd res))
     \<and> (\<forall>s s'. wood_parquet self s = Some s' \<longrightarrow> extends s s')
     \<and> (\<forall>s. extends s (tile_grout self s))
     \<and> (\<forall>r s res. tile_regular self r s = Some (Inr res) \<longrightarrow> extends s (snd res))
     \<and> (\<forall>s s'. tile_large_small self s = Some s' \<longrightarrow> extends s s')"
proof -
  have l: "lockstep s'"
    using assms lockstep_no_geometry lockstep_add_cube lockstep_board
    by (rule update_data_rule [where P = lockstep])
  have f: "face_below (length (vs s')) f" if "f \<in> set (fs s')" for f
  proof -
    from that obtain k where k: "k < length (fs s')" "f = fs s' ! k"
      by (auto simp add: in_set_conv_nth)
    from lockstep_faces [OF l k(1)] k(2) show ?thesis by (auto intro: face_below_mono)
  qed
  from l have "length (ms s') = length (fs s')" by (simp add: lockstep_def)
  then show ?thesis
    using lockstep_faces [OF l] f update_data_reset [of self r s0] wood_regular_extends
      wood_parquet_extends tile_grout_extends tile_regular_extends tile_large_small_extends
    by blast
qed

theorem buffer_parity_witness:
  "\<exists>r' s'. update_data example_floor (\<lambda>n. 0) no_geometry = Some (Inr (r', s'))
     \<and> length (ms s') = length (fs s') \<and> length (fs s') = 48
     \<and> (\<forall>f \<in> set (fs s'). face_below (length (vs s')) f)"
  using buffer_parity [OF example_run, of "\<lambda>n. 0" no_geometry] example_run [of "\<lambda>n. 0" no_geometry]
  by simp

section \<open>The large + small style on an example\<close>


lemma example_tiles_simps [simp]:
  "floor_material example_tiles = Tile" "tile_styles example_tiles = Large_small"
  "width example_tiles = 5 / 2" "length_y example_tiles = 1"
  "thickness example_tiles = 1" "mortar_depth example_tiles = 1 / 4"
  "tile_width example_tiles = 2" "tile_length example_tiles = 2"
  "spacing example_tiles = 0"
  by (simp_all add: example_tiles_def example_floor_def)

lemma tile_large_small_cols_stop:
  "\<not> cur_x < width self \<Longrightarrow> tile_large_small_cols self row cur_x cur_y step_back s = Some s"
  by (subst tile_large_small_cols.simps) simp

lemma tile_large_small_cols_step:
  "cur_x < width self \<Longrightarrow>
   tile_large_small_cell self row cur_x cur_y step_back s = (cx', cy', sb', s') \<Longrightarrow>
   tile_large_small_cols self row cur_x cur_y step_back s =
     tile_large_small_cols self row cx' cy' sb' s'"
  by (subst tile_large_small_cols.simps) simp

lemma tile_large_small_rows_stop:
  "\<not> cur_y < length_y self \<Longrightarrow> tile_large_small_rows self row cur_y pre_y s = Some s"
  by (subst tile_large_small_rows.simps) (simp add: Let_def)

lemma tile_large_small_rows_step:
  "cur_y < length_y self \<Longrightarrow>
   tile_large_small_rows self row cur_y pre_y s =
     Option.bind
       (tile_large_small_cols self row
          (if row = 1 then (tile_width self - spacing self) / 2 + spacing self else 0) cur_y True s)
       (\<lambda>s. tile_large_small_rows self ((row + 1) mod 3)
          (if row = 0 \<or> row = 2 then pre_y + tile_length self + spacing self
           else pre_y + (tile_length self - spacing self) / 2 + spacing self)
          (if row = 0 \<or> row = 2 then pre_y + tile_length self + spacing self
           else pre_y + (tile_length self - spacing self) / 2 + spacing self) s)"
  by (subst tile_large_small_rows.simps) (simp add: Let_def)

lemma example_tiles_cell1:
  "tile_large_small_cell example_tiles 0 0 0 True s =
     (2, - 1, False,
      s\<lparr>vs := vs s @ cube_vs 0 0 0 2 1 1, fs := fs s @ cube_fs (length (vs s)),
        ms := ms s @ replicate 6 0\<rparr>)"
  by (simp add: tile_large_small_cell_def Let_def add_cube_def)

lemma example_tiles_cell2:
  "tile_large_small_cell example_tiles 0 2 (- 1) False s =
     (5, 0, True,
      s\<lparr>vs := vs s @ cube_vs 2 0 0 (1 / 2) 1 1, fs := fs s @ cube_fs (length (vs s)),
        ms := ms s @ replicate 6 0\<rparr>)"
  by (simp add: tile_large_small_cell_def Let_def add_cube_def)

lemma example_tiles_style:
  "tile_large_small example_tiles s =
     Some (s\<lparr>vs := vs s @ cube_vs 0 0 0 2 1 1 @ cube_vs 2 0 0 (1 / 2) 1 1,
             fs := fs s @ cube_fs (length (vs s)) @ cube_fs (length (vs s) + 8),
             ms := ms s @ replicate 12 0\<rparr>)"
  by (simp add: tile_large_small_def tile_large_small_rows_step tile_large_small_rows_stop
      tile_large_small_cols_step [OF _ example_tiles_cell1]
      tile_large_small_cols_step [OF _ example_tiles_cell2]
      tile_large_small_cols_stop replicate_add [symmetric])

lemma example_tiles_run:
  "update_data example_tiles r s0 =
     Some (Inr (r, \<lparr>vs = cube_vs 0 0 0 (5 / 2) 1 (3 / 4) @ cube_vs 0 0 0 2 1 1 @ cube_vs 2 0 0 (1 / 2) 1 1,
                   fs = cube_fs 0 @ cube_fs 8 @ cube_fs 16,
                   ms = replicate 6 1 @ replicate 12 0\<rparr>))"
  by (simp add: update_data_def tile_grout_def no_geometry_def example_tiles_style add_cube_def)


section \<open>Runs that never draw\<close>

lemma wood_regular_rows_det:
  assumes nv: "\<not> vary_thickness self" "\<not> vary_length self"
    and run: "wood_regular_rows self cur_x bw2 cur_y counter r s = Some res"
  shows "wood_regular_rows self cur_x bw2 cur_y counter r2 s = Some (r2, snd res)"
proof -
  define Q where "Q = (\<lambda>self' (cx::real) (bw::real) (cy::real) (cnt::int) (r::rng) s (res::rng \<times> buffers).
     self' = self \<longrightarrow> (\<forall>r2. wood_regular_rows self cx bw cy cnt r2 s = Some (r2, snd res)))"
  have "Q self cur_x bw2 cur_y counter r s res"
  proof (rule wood_regular_rows.raw_induct [where P = Q, OF _ run], goal_cases)
    case (1 rows self' cx bw cy cnt r s res)
    note IH = 1(1) and body = 1(2)
    show ?case
      unfolding Q_def
    proof (intro impI allI)
      fix r2 assume eq: "self' = self"
      show "wood_regular_rows self cx bw cy cnt r2 s = Some (r2, snd res)"
      proof (cases "cy < length_y self")
        case False
        with body eq have "res = (r, s)" by simp
        with False show ?thesis by (simp add: wood_regular_rows_stop)
      next
        case True
        define bl2 where "bl2 = (if cy + board_length self > length_y self then length_y self - cy
           else board_length self)"
        have b: "wood_regular_board self cy cnt r' = (thickness self, bl2, r')" for r'
          using nv by (simp add: wood_regular_board_plain bl2_def)
        from body eq True b [of r]
        have "rows self cx bw (cy + (bl2 + length_spacing self)) (cnt + 1) r
                (add_cube self cx cy 0 bw bl2 (thickness self) True 0 s) = Some res" by simp
        from IH [OF this]
        have "wood_regular_rows self cx bw (cy + (bl2 + length_spacing self)) (cnt + 1) r2
                (add_cube self cx cy 0 bw bl2 (thickness self) True 0 s) = Some (r2, snd res)"
          by (simp add: Q_def)
        then show ?thesis by (simp add: wood_regular_rows_step [OF True b])
      qed
    qed
  qed
  then show ?thesis by (simp add: Q_def)
qed

lemma wood_regular_cols_det:
  assumes nv: "\<not> vary_thickness self" "\<not> vary_length self" "\<not> vary_width self"
    and run: "wood_regular_cols self cur_x r s = Some res"
  shows "wood_regular_cols self cur_x r2 s = Some (r2, snd res)"
proof -
  define Q where "Q = (\<lambda>self' (cx::real) (r::rng) s (res::rng \<times> buffers).
     self' = self \<longrightarrow> (\<forall>r2. wood_regular_cols self cx r2 s = Some (r2, snd res)))"
  have "Q self cur_x r s res"
  proof (rule wood_regular_cols.raw_induct [where P = Q, OF _ run], goal_cases)
    case (1 cols self' cx r s res)
    note IH = 1(1) and body = 1(2)
    show ?case
      unfolding Q_def
    proof (intro impI allI)
      fix r2 assume eq: "self' = self"
      show "wood_regular_cols self cx r2 s = Some (r2, snd res)"
      proof (cases "cx < width self")
        case False
        with body eq have "res = (r, s)" by simp
        with False show ?thesis by (simp add: wood_regular_cols_stop)
      next
        case True
        define bw2 where "bw2 = (if board_width self + cx > width self then width self - cx
           else board_width self)"
        have b: "wood_regular_column self cx r' = (bw2, r')" for r'
          using nv by (simp add: wood_regular_column_plain bw2_def)
        from body eq True b [of r] obtain res1 where
          rows: "wood_regular_rows self cx bw2 0 1 r s = Some res1" and
          rest: "cols self (cx + (bw2 + width_spacing self)) (fst res1) (snd res1) = Some res"
          by (auto simp add: bind_eq_Some_conv)
        from wood_regular_rows_det [OF nv(1,2) rows]
        have "wood_regular_rows self cx bw2 0 1 r2 s = Some (r2, snd res1)" .
        moreover from IH [OF rest]
        have "wood_regular_cols self (cx + (bw2 + width_spacing self)) r2 (snd res1) = Some (r2, snd res)"
          by (simp add: Q_def)
        ultimately show ?thesis by (simp add: wood_regular_cols_step [OF True b])
      qed
    qed
  qed
  then show ?thesis by (simp add: Q_def)
qed

lemma tile_regular_tile_fixed:
  assumes "\<not> (offset_tiles self \<and> random_offset self)"
  shows "tile_regular_tile self o_frac off cur_x r =
     (fst (tile_regular_tile self o_frac off cur_x (\<lambda>n. 0)), r)"
  using assms by (auto simp add: tile_regular_tile_def)

lemma tile_regular_cols_stop:
  "\<not> cur_x < width self \<Longrightarrow> tile_regular_cols self o_frac off cur_y tl2 cur_x r s = Some (r, s)"
  by (subst tile_regular_cols.simps) simp

lemma tile_regular_cols_step:
  "cur_x < width self \<Longrightarrow> tile_regular_tile self o_frac off cur_x r = (tw2, r') \<Longrightarrow>
   tile_regular_cols self o_frac off cur_y tl2 cur_x r s =
     tile_regular_cols self o_frac off cur_y tl2 (cur_x + (tw2 + spacing self)) r'
       (add_cube self cur_x cur_y 0 tw2 tl2 (thickness self) True 0 s)"
  by (subst tile_regular_cols.simps) simp

lemma tile_regular_rows_stop:
  "\<not> cur_y < length_y self \<Longrightarrow> tile_regular_rows self o_frac off cur_y r s = Some (r, s)"
  by (subst tile_regular_rows.simps) simp

lemma tile_regular_rows_step:
  "cur_y < length_y self \<Longrightarrow>
   tile_regular_rows self o_frac off cur_y r s =
     Option.bind
       (tile_regular_cols self o_frac off cur_y
          (if length_y self < cur_y + tile_length self then length_y self - cur_y
           else tile_length self) 0 r s)
       (\<lambda>(r, s). tile_regular_rows self o_frac (\<not> off)
          (cur_y + ((if length_y self < cur_y + tile_length self then length_y self - cur_y
                     else tile_length self) + spacing self)) r s)"
  by (subst tile_regular_rows.simps) (simp only: Let_def if_True simp_thms)

lemma tile_regular_cols_det:
  assumes nr: "\<not> (offset_tiles self \<and> random_offset self)"
    and run: "tile_regular_cols self o_frac off cur_y tl2 cur_x r s = Some res"
  shows "tile_regular_cols self o_frac off cur_y tl2 cur_x r2 s = Some (r2, snd res)"
proof -
  define Q where "Q = (\<lambda>self' (o'::real) (off::bool) (cy::real) (tl::real) (cx::real) (r::rng) s
       (res::rng \<times> buffers).
     self' = self \<longrightarrow> (\<forall>r2. tile_regular_cols self o' off cy tl cx r2 s = Some (r2, snd res)))"
  have "Q self o_frac off cur_y tl2 cur_x r s res"
  proof (rule tile_regular_cols.raw_induct [where P = Q, OF _ run], goal_cases)
    case (1 cols self' o' off cy tl cx r s res)
    note IH = 1(1) and body = 1(2)
    show ?case
      unfolding Q_def
    proof (intro impI allI)
      fix r2 assume eq: "self' = self"
      show "tile_regular_cols self o' off cy tl cx r2 s = Some (r2, snd res)"
      proof (cases "cx < width self")
        case False
        with body eq have "res = (r, s)" by simp
        with False show ?thesis by (simp add: tile_regular_cols_stop)
      next
        case True
        define tw2 where "tw2 = fst (tile_regular_tile self o' off cx (\<lambda>n. 0))"
        have b: "tile_regular_tile self o' off cx r' = (tw2, r')" for r'
          unfolding tw2_def by (rule tile_regular_tile_fixed [OF nr])
        from body eq True b [of r]
        have "cols self o' off cy tl (cx + (tw2 + spacing self)) r
                (add_cube self cx cy 0 tw2 tl (thickness self) True 0 s) = Some res" by simp
        from IH [OF this]
        have "tile_regular_cols self o' off cy tl (cx + (tw2 + spacing self)) r2
                (add_cube self cx cy 0 tw2 tl (thickness self) True 0 s) = Some (r2, snd res)"
          by (simp add: Q_def)
        then show ?thesis by (simp add: tile_regular_cols_step [OF True b])
      qed
    qed
  qed
  then show ?thesis by (simp add: Q_def)
qed

lemma tile_regular_rows_det:
  assumes nr: "\<not> (offset_tiles self \<and> random_offset self)"
    and run: "tile_regular_rows self o_frac off cur_y r s = Some res"
  shows "tile_regular_rows self o_frac off cur_y r2 s = Some (r2, snd res)"
proof -
  define Q where "Q = (\<lambda>self' (o'::real) (off::bool) (cy::real) (r::rng) s (res::rng \<times> buffers).
     self' = self \<longrightarrow> (\<forall>r2. tile_regular_rows self o' off cy r2 s = Some (r2, snd res)))"
  have "Q self o_frac off cur_y r s res"
  proof (rule tile_regular_rows.raw_induct [where P = Q, OF _ run], goal_cases)
    case (1 rows self' o' off cy r s res)
    note IH = 1(1) and body = 1(2)
    show ?case
      unfolding Q_def
    proof (intro impI allI)
      fix r2 assume eq: "self' = self"
      show "tile_regular_rows self o' off cy r2 s = Some (r2, snd res)"
      proof (cases "cy < length_y self")
        case False
        with body eq have "res = (r, s)" by simp
        with False show ?thesis by (simp add: tile_regular_rows_stop)
      next
        case True
        define tl2 where "tl2 = (if length_y self < cy + tile_length self then length_y self - cy
          else tile_length self)"
        from body eq True obtain res1 where
          cols: "tile_regular_cols self o' off cy tl2 0 r s = Some res1" and
          rest: "rows self o' (\<not> off) (cy + (tl2 + spacing self)) (fst res1) (snd res1) = Some res"
          by (auto simp add: bind_eq_Some_conv Let_def tl2_def)
        from tile_regular_cols_det [OF nr cols]
        have "tile_regular_cols self o' off cy tl2 0 r2 s = Some (r2, snd res1)" .
        moreover from IH [OF rest]
        have "tile_regular_rows self o' (\<not> off) (cy + (tl2 + spacing self)) r2 (snd res1)
            = Some (r2, snd res)"
          by (simp add: Q_def)
        ultimately show ?thesis by (simp add: tile_regular_rows_step [OF True] tl2_def)
      qed
    qed
  qed
  then show ?thesis by (simp add: Q_def)
qed

lemma same_buffers:
  assumes "\<And>r r' res. f r = Some res \<Longrightarrow> f r' = Some (r', snd res)"
  shows "map_option snd (f r1) = map_option snd (f (r2::rng))"
proof (cases "f r1")
  case None
  show ?thesis
  proof (cases "f r2")
    case (Some res) from assms [OF this, of r1] None show ?thesis by simp
  qed (simp add: None)
next
  case (Some res) from assms [OF this, of r2] Some show ?thesis by simp
qed


lemma example_offset_simps [simp]:
  "floor_material example_offset = Tile" "tile_styles example_offset = Regular_tile"
  "width example_offset = 1" "length_y example_offset = 1"
  "thickness example_offset = 1" "mortar_depth example_offset = 0"
  "tile_width example_offset = 1" "tile_length example_offset = 1"
  "spacing example_offset = 0" "offset example_offset = 50" "offset_variance example_offset = 100"
  "offset_tiles example_offset = True" "random_offset example_offset = True"
  "vary_thickness example_offset = False" "vary_width example_offset = False"
  "vary_length example_offset = False"
  by (simp_all add: example_offset_def example_floor_def)

lemma example_offset_first_tile:
  "tile_regular_tile example_offset o_frac False 0 r = (1 / 100 + 98 / 100 * r 0, \<lambda>n. r (Suc n))"
  by (simp add: tile_regular_tile_def uniform_def)

lemma example_offset_last_tile:
  "0 < cur_x \<Longrightarrow> cur_x < 1 \<Longrightarrow>
   tile_regular_tile example_offset o_frac False cur_x r = (1 - cur_x, r)"
  by (simp add: tile_regular_tile_def)

lemma example_offset_low:
  "update_data example_offset (\<lambda>n. 0) s0 =
     Some (Inr (\<lambda>n. 0, \<lparr>vs = cube_vs 0 0 0 1 1 1 @ cube_vs 0 0 0 (1 / 100) 1 1
                             @ cube_vs (1 / 100) 0 0 (99 / 100) 1 1,
                        fs = cube_fs 0 @ cube_fs 8 @ cube_fs 16,
                        ms = replicate 6 1 @ replicate 12 0\<rparr>))"
  by (simp add: update_data_def tile_grout_def no_geometry_def tile_regular_def
      tile_regular_rows_step tile_regular_rows_stop
      tile_regular_cols_step [OF _ example_offset_first_tile]
      tile_regular_cols_step [OF _ example_offset_last_tile]
      tile_regular_cols_stop add_cube_def replicate_add [symmetric])

lemma example_offset_high:
  "update_data example_offset (\<lambda>n. 1) s0 =
     Some (Inr (\<lambda>n. 1, \<lparr>vs = cube_vs 0 0 0 1 1 1 @ cube_vs 0 0 0 (99 / 100) 1 1
                             @ cube_vs (99 / 100) 0 0 (1 / 100) 1 1,
                        fs = cube_fs 0 @ cube_fs 8 @ cube_fs 16,
                        ms = replicate 6 1 @ replicate 12 0\<rparr>))"
  by (simp add: update_data_def tile_grout_def no_geometry_def tile_regular_def
      tile_regular_rows_step tile_regular_rows_stop
      tile_regular_cols_step [OF _ example_offset_first_tile]
      tile_regular_cols_step [OF _ example_offset_last_tile]
      tile_regular_cols_stop add_cube_def replicate_add [symmetric])

text \<open>
  C8, as stated, fails: the tile regular style draws the width of the first tile of a row
  when \<^verbatim>\<open>offset_tiles\<close> and \<^verbatim>\<open>random_offset\<close> are set, and neither is a \<^verbatim>\<open>vary_*\<close>
  flag. With every \<^verbatim>\<open>vary_*\<close> flag false, two runs on the same parameters whose random
  source yields 0, respectively 1, return different vertices.
\<close>

theorem random_offset_counterexample:
  "\<exists>s1 s2. update_data example_offset (\<lambda>n. 0) no_geometry = Some (Inr (\<lambda>n. 0, s1))
     \<and> update_data example_offset (\<lambda>n. 1) no_geometry = Some (Inr (\<lambda>n. 1, s2))
     \<and> footprints (vs s1) = [(0, 0, 1, 1), (0, 0, 1 / 100, 1), (1 / 100, 0, 99 / 100, 1)]
     \<and> footprints (vs s2) = [(0, 0, 1, 1), (0, 0, 99 / 100, 1), (99 / 100, 0, 1 / 100, 1)]
     \<and> vs s1 \<noteq> vs s2
     \<and> \<not> vary_thickness example_offset \<and> \<not> vary_width example_offset
     \<and> \<not> vary_length example_offset"
  by (simp add: example_offset_low example_offset_high) (simp add: cube_vs_def)

text \<open>
  C8, amended. When every \<^verbatim>\<open>vary_*\<close> flag is false and \<^verbatim>\<open>offset_tiles\<close> and
  \<^verbatim>\<open>random_offset\<close> are not both set, the outcome of a run (the three buffers, an
  error, or no return) is the same for every random source and whatever the buffers held
  before.
\<close>

theorem determinism_without_draws:
  assumes "\<not> vary_thickness self" and "\<not> vary_width self" and "\<not> vary_length self"
    and "\<not> (offset_tiles self \<and> random_offset self)"
  shows "map_option (map_sum id snd) (update_data self r1 s1)
       = map_option (map_sum id snd) (update_data self r2 s2)"
proof -
  have wood: "map_option snd (wood_regular_cols self 0 r1 no_geometry)
            = map_option snd (wood_regular_cols self 0 r2 no_geometry)"
    by (rule same_buffers) (rule wood_regular_cols_det [OF assms(1,3,2)])
  have tile: "map_option snd (tile_regular_rows self o_frac False 0 r1 g)
            = map_option snd (tile_regular_rows self o_frac False 0 r2 g)" for o_frac g
    by (rule same_buffers) (rule tile_regular_rows_det [OF assms(4)])
  have wood': "map_option (\<lambda>x. Inr (snd x) :: py_error + buffers) (wood_regular_cols self 0 r1 no_geometry)
             = map_option (\<lambda>x. Inr (snd x)) (wood_regular_cols self 0 r2 no_geometry)"
    using arg_cong [OF wood, of "map_option Inr"] by (simp add: option.map_comp comp_def)
  have tile': "map_option (\<lambda>x. Inr (snd x) :: py_error + buffers) (tile_regular_rows self o_frac False 0 r1 g)
             = map_option (\<lambda>x. Inr (snd x)) (tile_regular_rows self o_frac False 0 r2 g)" for o_frac g
    using arg_cong [OF tile, of "map_option Inr"] by (simp add: option.map_comp comp_def)
  show ?thesis
  proof (cases "floor_material self")
    case Wood
    then show ?thesis
      using wood' by (cases "wood_styles self")
        (simp_all add: update_data_def wood_regular_def option.map_comp comp_def)
  next
    case Tile
    then show ?thesis
      using tile' by (cases "tile_styles self")
        (simp_all add: update_data_def tile_regular_def Let_def option.map_comp comp_def)
  qed
qed

theorem determinism_without_draws_witness:
  "map_option (map_sum id snd) (update_data example_floor (\<lambda>n. 0) no_geometry)
     = map_option (map_sum id snd) (update_data example_floor (\<lambda>n. 1) no_geometry)
   \<and> (\<exists>s. update_data example_floor (\<lambda>n. 1) no_geometry = Some (Inr (\<lambda>n. 1, s)))"
  using determinism_without_draws [of example_floor "\<lambda>n. 0" no_geometry "\<lambda>n. 1" no_geometry]
    example_run [of "\<lambda>n. 1" no_geometry]
  by (simp add: example_floor_def)

section \<open>The sweeps of the regular styles return\<close>

lemma steps_cover:
  fixes d x :: real
  assumes "0 < d"
  shows "\<exists>n::nat. x \<le> real n * d"
proof -
  obtain n :: nat where "x / d \<le> real n" using real_arch_simple by blast
  then have "x \<le> real n * d" using assms by (simp add: pos_divide_le_eq)
  then show ?thesis ..
qed

lemma wood_regular_rows_returns:
  assumes v: "validated self" and u: "unit_draws r"
  shows "\<exists>res. wood_regular_rows self cur_x bw2 cur_y counter r s = Some res"
proof -
  define d where "d = board_length self / 100"
  have d: "0 < d" using validated_pos [OF v] by (simp add: d_def)
  have ls: "0 \<le> length_spacing self" using validated_pos [OF v] by simp
  have "\<exists>res. wood_regular_rows self cur_x bw2 cy cnt r s = Some res"
    if "unit_draws r" "length_y self - cy \<le> real n * d" for n cy cnt r s
    using that
  proof (induction n arbitrary: cy cnt r s)
    case 0
    then have "\<not> cy < length_y self" by simp
    then show ?case by (simp add: wood_regular_rows_stop)
  next
    case (Suc n)
    show ?case
    proof (cases "cy < length_y self")
      case False
      then show ?thesis by (simp add: wood_regular_rows_stop)
    next
      case True
      obtain z bl2 r' where b: "wood_regular_board self cy cnt r = (z, bl2, r')"
        by (cases "wood_regular_board self cy cnt r") auto
      from wood_regular_board_valid [OF v Suc.prems(1) True b]
      have st: "d \<le> bl2 \<or> bl2 = length_y self - cy" and u': "unit_draws r'"
        by (auto simp add: d_def)
      have "length_y self - (cy + (bl2 + length_spacing self)) \<le> real n * d"
      proof -
        from st show ?thesis
        proof
          assume "d \<le> bl2"
          moreover have "real (Suc n) * d = real n * d + d" by (simp add: algebra_simps)
          ultimately show ?thesis using Suc.prems(2) ls by linarith
        next
          assume "bl2 = length_y self - cy"
          moreover have "0 \<le> real n * d" using d by simp
          ultimately show ?thesis using ls by linarith
        qed
      qed
      from Suc.IH [OF u' this] show ?thesis by (simp add: wood_regular_rows_step [OF True b])
    qed
  qed
  with u steps_cover [OF d] show ?thesis by blast
qed

lemma wood_regular_rows_draws:
  assumes "validated self" and "unit_draws r"
    and "wood_regular_rows self cur_x bw2 cur_y counter r s = Some res" and "0 \<le> cur_y"
  shows "unit_draws (fst res)"
  using wood_regular_rows_rule [where P = "\<lambda>s. True" and G = True, OF assms(3)] assms(1,2,4)
  by simp

lemma wood_regular_cols_returns:
  assumes v: "validated self" and u: "unit_draws r"
  shows "\<exists>res. wood_regular_cols self cur_x r s = Some res"
proof -
  define d where "d = board_width self / 100"
  have d: "0 < d" using validated_pos [OF v] by (simp add: d_def)
  have ws: "0 \<le> width_spacing self" using validated_pos [OF v] by simp
  have "\<exists>res. wood_regular_cols self cx r s = Some res"
    if "unit_draws r" "width self - cx \<le> real n * d" for n cx r s
    using that
  proof (induction n arbitrary: cx r s)
    case 0
    then have "\<not> cx < width self" by simp
    then show ?case by (simp add: wood_regular_cols_stop)
  next
    case (Suc n)
    show ?case
    proof (cases "cx < width self")
      case False
      then show ?thesis by (simp add: wood_regular_cols_stop)
    next
      case True
      obtain bw2 r' where b: "wood_regular_column self cx r = (bw2, r')"
        by (cases "wood_regular_column self cx r") auto
      from wood_regular_column_valid [OF v Suc.prems(1) True b]
      have st: "d \<le> bw2 \<or> bw2 = width self - cx" and u': "unit_draws r'"
        by (auto simp add: d_def)
      from wood_regular_rows_returns [OF v u'] obtain res1 where
        rows: "wood_regular_rows self cx bw2 0 1 r' s = Some res1" by blast
      have u1: "unit_draws (fst res1)"
        using wood_regular_rows_draws [OF v u' rows] by simp
      have "width self - (cx + (bw2 + width_spacing self)) \<le> real n * d"
      proof -
        from st show ?thesis
        proof
          assume "d \<le> bw2"
          moreover have "real (Suc n) * d = real n * d + d" by (simp add: algebra_simps)
          ultimately show ?thesis using Suc.prems(2) ws by linarith
        next
          assume "bw2 = width self - cx"
          moreover have "0 \<le> real n * d" using d by simp
          ultimately show ?thesis using ws by linarith
        qed
      qed
      from Suc.IH [OF u1 this, of "snd res1"] rows
      show ?thesis by (simp add: wood_regular_cols_step [OF True b] case_prod_beta)
    qed
  qed
  with u steps_cover [OF d] show ?thesis by blast
qed

lemma tile_regular_cols_returns:
  assumes v: "validated self" and u: "unit_draws r" and o: "0 < o_frac"
  shows "\<exists>res. tile_regular_cols self o_frac off cur_y tl2 cur_x r s = Some res"
proof -
  define d where "d = min (tile_width self * o_frac) (min (tile_length self / 100) (tile_width self))"
  have d: "0 < d" using validated_pos [OF v] o by (simp add: d_def)
  have sp: "0 \<le> spacing self" using validated_pos [OF v] by simp
  have "\<exists>res. tile_regular_cols self o_frac off cur_y tl2 cx r s = Some res"
    if "unit_draws r" "width self - cx \<le> real n * d" for n cx r s
    using that
  proof (induction n arbitrary: cx r s)
    case 0
    then have "\<not> cx < width self" by simp
    then show ?case by (simp add: tile_regular_cols_stop)
  next
    case (Suc n)
    show ?case
    proof (cases "cx < width self")
      case False
      then show ?thesis by (simp add: tile_regular_cols_stop)
    next
      case True
      obtain tw2 r' where b: "tile_regular_tile self o_frac off cx r = (tw2, r')"
        by (cases "tile_regular_tile self o_frac off cx r") auto
      from tile_regular_tile_valid [OF v Suc.prems(1) True o b]
      have st: "d \<le> tw2 \<or> tw2 = width self - cx" and u': "unit_draws r'"
        by (auto simp add: d_def)
      have "width self - (cx + (tw2 + spacing self)) \<le> real n * d"
      proof -
        from st show ?thesis
        proof
          assume "d \<le> tw2"
          moreover have "real (Suc n) * d = real n * d + d" by (simp add: algebra_simps)
          ultimately show ?thesis using Suc.prems(2) sp by linarith
        next
          assume "tw2 = width self - cx"
          moreover have "0 \<le> real n * d" using d by simp
          ultimately show ?thesis using sp by linarith
        qed
      qed
      from Suc.IH [OF u' this] show ?thesis by (simp add: tile_regular_cols_step [OF True b])
    qed
  qed
  with u steps_cover [OF d] show ?thesis by blast
qed

lemma tile_regular_cols_draws:
  assumes "validated self" and "unit_draws r" and "0 < o_frac"
    and "tile_regular_cols self o_frac off cur_y tl2 cur_x r s = Some res" and "0 \<le> cur_x"
  shows "unit_draws (fst res)"
  using tile_regular_cols_rule [where P = "\<lambda>s. True" and G = True, OF assms(4)] assms(1,2,3,5)
  by simp

lemma tile_regular_rows_returns:
  assumes v: "validated self" and u: "unit_draws r" and o: "0 < o_frac"
  shows "\<exists>res. tile_regular_rows self o_frac off cur_y r s = Some res"
proof -
  define d where "d = tile_length self"
  have d: "0 < d" using validated_pos [OF v] by (simp add: d_def)
  have sp: "0 \<le> spacing self" using validated_pos [OF v] by simp
  have "\<exists>res. tile_regular_rows self o_frac off cy r s = Some res"
    if "unit_draws r" "length_y self - cy \<le> real n * d" for n cy off r s
    using that
  proof (induction n arbitrary: cy off r s)
    case 0
    then have "\<not> cy < length_y self" by simp
    then show ?case by (simp add: tile_regular_rows_stop)
  next
    case (Suc n)
    show ?case
    proof (cases "cy < length_y self")
      case False
      then show ?thesis by (simp add: tile_regular_rows_stop)
    next
      case True
      define tl2 where "tl2 = (if length_y self < cy + tile_length self then length_y self - cy
          else tile_length self)"
      have st: "d \<le> tl2 \<or> tl2 = length_y self - cy" by (simp add: tl2_def d_def)
      from tile_regular_cols_returns [OF v Suc.prems(1) o] obtain res1 where
        cols: "tile_regular_cols self o_frac off cy tl2 0 r s = Some res1" by blast
      have u1: "unit_draws (fst res1)"
        using tile_regular_cols_draws [OF v Suc.prems(1) o cols] by simp
      have "length_y self - (cy + (tl2 + spacing self)) \<le> real n * d"
      proof -
        from st show ?thesis
        proof
          assume "d \<le> tl2"
          moreover have "real (Suc n) * d = real n * d + d" by (simp add: algebra_simps)
          ultimately show ?thesis using Suc.prems(2) sp by linarith
        next
          assume "tl2 = length_y self - cy"
          moreover have "0 \<le> real n * d" using d by simp
          ultimately show ?thesis using sp by linarith
        qed
      qed
      from Suc.IH [OF u1 this, of "\<not> off" "snd res1"] cols
      show ?thesis by (simp add: tile_regular_rows_step [OF True] case_prod_beta tl2_def)
    qed
  qed
  with u steps_cover [OF d] show ?thesis by blast
qed

section \<open>Degenerate strides\<close>

lemma example_stuck_simps [simp]:
  "floor_material example_stuck = Wood" "wood_styles example_stuck = Regular"
  "width example_stuck = 4" "board_width example_stuck = 0"
  "vary_width example_stuck = False" "width_spacing example_stuck = 0"
  by (simp_all add: example_stuck_def example_floor_def)

lemma example_stuck_column: "wood_regular_column example_stuck 0 r = (0, r)"
  by (simp add: wood_regular_column_plain)

lemma example_stuck_cols: "wood_regular_cols example_stuck 0 r s \<noteq> Some res"
proof
  assume run: "wood_regular_cols example_stuck 0 r s = Some res"
  define Q where "Q = (\<lambda>self (cx::real) (r::rng) (s::buffers) (res::rng \<times> buffers).
     \<not> (self = example_stuck \<and> cx = 0))"
  have "Q example_stuck 0 r s res"
  proof (rule wood_regular_cols.raw_induct [where P = Q, OF _ run], goal_cases)
    case (1 cols self cx r s res)
    note IH = 1(1) and body = 1(2)
    show ?case
      unfolding Q_def
    proof
      assume eq: "self = example_stuck \<and> cx = 0"
      with body example_stuck_column [of r] obtain res1 where
        "cols example_stuck 0 (fst res1) (snd res1) = Some res"
        by (auto simp add: bind_eq_Some_conv)
      from IH [OF this] show False by (simp add: Q_def)
    qed
  qed
  then show False by (simp add: Q_def)
qed

text \<open>
  C7, as stated, fails: the generator has no check of its strides and no error for them.
  With boards of width zero and no width spacing the column stride is zero, and the run
  neither returns buffers nor raises an error: it does not return.
\<close>

theorem zero_stride_counterexample:
  "update_data example_stuck (\<lambda>n. 0) no_geometry = None
   \<and> fst (wood_regular_column example_stuck 0 (\<lambda>n. 0)) + width_spacing example_stuck = 0"
proof -
  have "wood_regular_cols example_stuck 0 (\<lambda>n. 0) no_geometry = None"
    using example_stuck_cols [of "\<lambda>n. 0" no_geometry] by (cases "wood_regular_cols example_stuck 0 (\<lambda>n. 0) no_geometry") auto
  then show ?thesis
    by (simp add: update_data_def wood_regular_def example_stuck_column)
qed

lemma validated_offset:
  assumes "validated self" shows "offset self \<noteq> 0 \<and> 0 < 1 / (100 / offset self)"
  using validated_pos [OF assms] by simp

text \<open>
  C7, amended. For parameters in the validated ranges and draws in \<open>[0, 1]\<close> every stride
  of the wood regular and tile regular sweeps is positive (a varied dimension is at least
  a hundredth of its nominal value), and both styles return without an error.
\<close>

theorem strides_positive:
  assumes "validated self" and "unit_draws r"
  shows "(\<exists>res. wood_regular self r s = Some res)
     \<and> (\<exists>res. tile_regular self r s = Some (Inr res))
     \<and> (\<forall>cur_y counter. cur_y < length_y self \<longrightarrow>
           0 < fst (snd (wood_regular_board self cur_y counter r)) + length_spacing self)
     \<and> (\<forall>cur_x. cur_x < width self \<longrightarrow>
           0 < fst (wood_regular_column self cur_x r) + width_spacing self)
     \<and> (\<forall>cur_x off. cur_x < width self \<longrightarrow>
           0 < fst (tile_regular_tile self (1 / (100 / offset self)) off cur_x r) + spacing self)
     \<and> (\<forall>cur_y. cur_y < length_y self \<longrightarrow>
           0 < (if length_y self < cur_y + tile_length self then length_y self - cur_y
                else tile_length self) + spacing self)"
proof -
  note pos = validated_pos [OF assms(1)] and off = validated_offset [OF assms(1)]
  have 1: "\<exists>res. wood_regular self r s = Some res"
    using wood_regular_cols_returns [OF assms] by (simp add: wood_regular_def)
  have 2: "\<exists>res. tile_regular self r s = Some (Inr res)"
    using tile_regular_rows_returns [OF assms, of "1 / (100 / offset self)"] off
    by (auto simp add: tile_regular_def)
  have 3: "0 < fst (snd (wood_regular_board self cur_y counter r)) + length_spacing self"
    if "cur_y < length_y self" for cur_y counter
  proof -
    obtain z bl2 r' where b: "wood_regular_board self cur_y counter r = (z, bl2, r')"
      by (cases "wood_regular_board self cur_y counter r") auto
    from wood_regular_board_valid [OF assms that b] b pos show ?thesis by simp
  qed
  have 4: "0 < fst (wood_regular_column self cur_x r) + width_spacing self"
    if "cur_x < width self" for cur_x
  proof -
    obtain bw2 r' where b: "wood_regular_column self cur_x r = (bw2, r')"
      by (cases "wood_regular_column self cur_x r") auto
    from wood_regular_column_valid [OF assms that b] b pos show ?thesis by simp
  qed
  have 5: "0 < fst (tile_regular_tile self (1 / (100 / offset self)) off cur_x r) + spacing self"
    if "cur_x < width self" for cur_x off
  proof -
    obtain tw2 r' where b: "tile_regular_tile self (1 / (100 / offset self)) off cur_x r = (tw2, r')"
      by (cases "tile_regular_tile self (1 / (100 / offset self)) off cur_x r") auto
    from tile_regular_tile_valid [OF assms that _ b] off b pos show ?thesis by simp
  qed
  have 6: "0 < (if length_y self < cur_y + tile_length self then length_y self - cur_y
                else tile_length self) + spacing self"
    if "cur_y < length_y self" for cur_y
    using that pos by simp
  from 1 2 3 4 5 6 show ?thesis by blast
qed

lemma validated_example_varied: "validated example_varied"
  by (simp add: validated_def example_varied_def example_floor_def FOOT_def INCH_def)

lemma unit_draws_const: "0 \<le> c \<Longrightarrow> c \<le> 1 \<Longrightarrow> unit_draws (\<lambda>n. c)"
  by (simp add: unit_draws_def)

theorem strides_positive_witness:
  "validated example_varied \<and> unit_draws (\<lambda>n. 0)
   \<and> (\<exists>res. wood_regular example_varied (\<lambda>n. 0) no_geometry = Some res)
   \<and> (\<exists>res. tile_regular example_varied (\<lambda>n. 0) no_geometry = Some (Inr res))
   \<and> 0 < fst (wood_regular_column example_varied 0 (\<lambda>n. 0)) + width_spacing example_varied
   \<and> fst (wood_regular_column example_varied 0 (\<lambda>n. 0)) = 1 / 100"
proof -
  have u: "unit_draws (\<lambda>n. 0)" by (simp add: unit_draws_const)
  have "fst (wood_regular_column example_varied 0 (\<lambda>n. 0)) = 1 / 100"
    by (simp add: wood_regular_column_def uniform_def example_varied_def example_floor_def)
  moreover have "(0::real) < width example_varied"
    by (simp add: example_varied_def example_floor_def)
  ultimately show ?thesis
    using strides_positive [OF validated_example_varied u, of no_geometry] validated_example_varied u
    by blast
qed

section \<open>Footprint containment\<close>

lemma inside_footprint_add_cube:
  assumes "inside_footprint self s" and "0 \<le> x" and "0 \<le> y" and "0 < w" and "0 < l"
  shows "inside_footprint self (add_cube self x y z w l t True m s)"
  using assms by (auto simp add: inside_footprint_def add_cube_def Let_def cube_vs_def)

text \<open>
  C3. For the wood regular and tile regular styles, parameters in the validated ranges and
  draws in \<open>[0, 1]\<close>, a run returns and every vertex of every emitted box has its \<open>x\<close> in
  \<open>[0, W]\<close> and its \<open>y\<close> in \<open>[0, L]\<close>.
\<close>

theorem footprint_containment:
  assumes "validated self" and "unit_draws r"
    and "floor_material self = Wood \<and> wood_styles self = Regular
       \<or> floor_material self = Tile \<and> tile_styles self = Regular_tile"
  shows "\<exists>r' s'. update_data self r s0 = Some (Inr (r', s')) \<and> inside_footprint self s'"
proof -
  note pos = validated_pos [OF assms(1)] and off = validated_offset [OF assms(1)]
  have e: "inside_footprint self no_geometry"
    by (simp add: inside_footprint_def no_geometry_def)
  from assms(3) show ?thesis
  proof
    assume w: "floor_material self = Wood \<and> wood_styles self = Regular"
    from wood_regular_cols_returns [OF assms(1,2)] obtain res where
      run: "wood_regular_cols self 0 r no_geometry = Some res" by blast
    from wood_regular_cols_rule [where P = "inside_footprint self" and G = True, OF run e]
    have "inside_footprint self (snd res)"
      using inside_footprint_add_cube assms(1,2) by simp
    with w run show ?thesis
      by (cases res) (simp add: update_data_def wood_regular_def)
  next
    assume t: "floor_material self = Tile \<and> tile_styles self = Regular_tile"
    define g where "g = tile_grout self no_geometry"
    have g: "inside_footprint self g"
      using inside_footprint_add_cube [OF e, of 0 0 "width self" "length_y self"] pos
      by (simp add: g_def tile_grout_def Let_def)
    from tile_regular_rows_returns [OF assms(1,2), of "1 / (100 / offset self)"] off obtain res where
      run: "tile_regular_rows self (1 / (100 / offset self)) False 0 r g = Some res" by blast
    from tile_regular_rows_rule [where P = "inside_footprint self" and G = True, OF run g]
    have "inside_footprint self (snd res)"
      using inside_footprint_add_cube assms(1,2) off by simp
    with t run off show ?thesis
      by (cases res) (simp add: update_data_def tile_regular_def Let_def g_def)
  qed
qed

lemma validated_example_regular_tiles: "validated example_regular_tiles"
  by (simp add: validated_def example_regular_tiles_def example_floor_def FOOT_def INCH_def)

theorem footprint_containment_witness:
  "validated example_regular_tiles \<and> unit_draws (\<lambda>n. 1 / 2)
   \<and> floor_material example_regular_tiles = Tile \<and> tile_styles example_regular_tiles = Regular_tile
   \<and> (\<exists>r' s'. update_data example_regular_tiles (\<lambda>n. 1 / 2) no_geometry = Some (Inr (r', s'))
          \<and> inside_footprint example_regular_tiles s')
   \<and> validated example_varied \<and> floor_material example_varied = Wood
   \<and> wood_styles example_varied = Regular
   \<and> (\<exists>r' s'. update_data example_varied (\<lambda>n. 1 / 2) no_geometry = Some (Inr (r', s'))
          \<and> inside_footprint example_varied s')"
proof -
  have u: "unit_draws (\<lambda>n. 1 / 2)" by (simp add: unit_draws_const)
  have t: "floor_material example_regular_tiles = Tile \<and> tile_styles example_regular_tiles = Regular_tile"
    by (simp add: example_regular_tiles_def example_floor_def)
  have w: "floor_material example_varied = Wood \<and> wood_styles example_varied = Regular"
    by (simp add: example_varied_def example_floor_def)
  from footprint_containment [OF validated_example_regular_tiles u, of no_geometry]
    footprint_containment [OF validated_example_varied u, of no_geometry]
    validated_example_regular_tiles validated_example_varied u t w
  show ?thesis by blast
qed

section \<open>Coverage by the wood regular style\<close>









section \<open>The large + small sweeps return\<close>

lemma tile_large_small_cell_advance:
  assumes "0 < tile_width self" and "0 \<le> spacing self"
    and "tile_large_small_cell self row cur_x cur_y step_back s = (cx', cy', sb', s')"
  shows "cur_x + (tile_width self + spacing self) \<le> cx'"
proof -
  have "cx' = cur_x + (tile_width self + spacing self)
      \<or> cx' = cur_x + (tile_width self + (tile_width self - spacing self) / 2 + 2 * spacing self)
      \<or> cx' = cur_x + (2 * ((tile_width self - spacing self) / 2) + tile_width self + 3 * spacing self)
      \<or> cx' = cur_x + (2 * tile_width self + 3 * spacing self + (tile_width self - spacing self) / 2)"
    using assms(3) by (auto simp add: tile_large_small_cell_def Let_def split: if_splits)
  then show ?thesis using assms(1,2) by (auto simp add: field_simps)
qed

lemma tile_large_small_cols_returns:
  assumes "0 < tile_width self" and "0 \<le> spacing self"
  shows "\<exists>s'. tile_large_small_cols self row cur_x cur_y step_back s = Some s'"
proof -
  define d where "d = tile_width self + spacing self"
  have d: "0 < d" using assms by (simp add: d_def)
  have "\<exists>s'. tile_large_small_cols self row cx cy sb s = Some s'"
    if "width self - cx \<le> real n * d" for n cx cy sb s
    using that
  proof (induction n arbitrary: cx cy sb s)
    case 0
    then have "\<not> cx < width self" by simp
    then show ?case by (simp add: tile_large_small_cols_stop)
  next
    case (Suc n)
    show ?case
    proof (cases "cx < width self")
      case False
      then show ?thesis by (simp add: tile_large_small_cols_stop)
    next
      case True
      obtain cx1 cy1 sb1 s1 where
        c: "tile_large_small_cell self row cx cy sb s = (cx1, cy1, sb1, s1)"
        by (cases "tile_large_small_cell self row cx cy sb s") auto
      from tile_large_small_cell_advance [OF assms c] have "cx + d \<le> cx1" by (simp add: d_def)
      moreover have "real (Suc n) * d = real n * d + d" by (simp add: algebra_simps)
      ultimately have "width self - cx1 \<le> real n * d" using Suc.prems by linarith
      from Suc.IH [OF this] show ?thesis by (simp add: tile_large_small_cols_step [OF True c])
    qed
  qed
  with steps_cover [OF d] show ?thesis by blast
qed

lemma tile_large_small_rows_returns:
  assumes "0 < tile_width self" and "0 < tile_length self" and "0 \<le> spacing self"
  shows "\<exists>s'. tile_large_small_rows self row cur_y cur_y s = Some s'"
proof -
  define d where "d = (tile_length self + spacing self) / 2"
  have d: "0 < d" using assms by (simp add: d_def)
  have "\<exists>s'. tile_large_small_rows self row cy cy s = Some s'"
    if "length_y self - cy \<le> real n * d" for n row cy s
    using that
  proof (induction n arbitrary: row cy s)
    case 0
    then have "\<not> cy < length_y self" by simp
    then show ?case by (simp add: tile_large_small_rows_stop)
  next
    case (Suc n)
    show ?case
    proof (cases "cy < length_y self")
      case False
      then show ?thesis by (simp add: tile_large_small_rows_stop)
    next
      case True
      define cy1 where "cy1 = (if row = 0 \<or> row = 2 then cy + tile_length self + spacing self
           else cy + (tile_length self - spacing self) / 2 + spacing self)"
      from tile_large_small_cols_returns [OF assms(1,3)] obtain s1 where
        cols: "tile_large_small_cols self row
          (if row = 1 then (tile_width self - spacing self) / 2 + spacing self else 0) cy True s
            = Some s1" by blast
      have "cy + d \<le> cy1" using assms by (simp add: cy1_def d_def field_simps)
      moreover have "real (Suc n) * d = real n * d + d" by (simp add: algebra_simps)
      ultimately have "length_y self - cy1 \<le> real n * d" using Suc.prems by linarith
      from Suc.IH [OF this, of "(row + 1) mod 3" s1] cols
      show ?thesis by (simp add: tile_large_small_rows_step [OF True] cy1_def)
    qed
  qed
  with steps_cover [OF d] show ?thesis by blast
qed



section \<open>The grout base\<close>

lemma tile_grout_slab:
  assumes "0 < width self" "0 < length_y self"
  shows "tile_grout self no_geometry =
     \<lparr>vs = cube_vs 0 0 0 (width self) (length_y self) (thickness self - mortar_depth self),
      fs = cube_fs 0, ms = replicate 6 1\<rparr>"
  using assms by (simp add: tile_grout_def Let_def add_cube_def no_geometry_def)




lemma validated_example_tiles: "validated example_tiles"
  by (simp add: validated_def example_tiles_def example_floor_def FOOT_def INCH_def)


section \<open>Large + small tiles are clipped\<close>

lemma within_edges_add_cube:
  "within_edges self s \<Longrightarrow> within_edges self (add_cube self x y z w l t True m s)"
  by (auto simp add: within_edges_def add_cube_def Let_def cube_vs_def)

lemma clipped_cubes_append:
  "clipped_cubes self (calls @ [(x, y, w, l, t)]) s
     = add_cube self x y 0 w l t True 0 (clipped_cubes self calls s)"
  by (simp add: clipped_cubes_def)

lemma clipped_cubes_extends: "extends s (clipped_cubes self calls s)"
proof (induction calls rule: rev_induct)
  case Nil
  show ?case by (simp add: clipped_cubes_def extends_refl)
next
  case (snoc c calls)
  obtain x y w l t where c: "c = (x, y, w, l, t)" by (cases c) auto
  from snoc extends_add_cube show ?case
    unfolding c clipped_cubes_append by (blast intro: extends_trans)
qed

text \<open>
  C9, as stated, fails: on a floor of 2.5 by 1 with tiles of 2 by 2 the large + small style
  emits two boxes, the first with its length shrunk from 2 to 1 at the top edge and the
  second with its width shrunk from 2 to a half at the right edge.
\<close>

theorem large_small_clipped_example:
  "\<exists>s'. tile_large_small example_tiles no_geometry = Some s'
     \<and> footprints (vs s') = [(0, 0, 2, 1), (2, 0, 1 / 2, 1)]
     \<and> tile_width example_tiles = 2 \<and> tile_length example_tiles = 2
     \<and> (tile_width example_tiles - spacing example_tiles) / 2 = 1
     \<and> width example_tiles = 5 / 2 \<and> length_y example_tiles = 1"
  by (simp add: example_tiles_style no_geometry_def) (simp add: cube_vs_def)

text \<open>
  C9, amended. In the large + small style every tile goes through \<^verbatim>\<open>add_cube\<close> with
  \<^verbatim>\<open>clip\<close> enabled, so the pattern is clipped at the right and top edges like the
  others. For parameters in the validated ranges a run returns; its buffers are the grout
  slab followed by clipped calls of \<^verbatim>\<open>add_cube\<close>, the first of them for the large tile
  at the origin, which is emitted with width \<open>min tile_width W\<close> and length
  \<open>min tile_length L\<close>; and no vertex lies beyond \<open>x = W\<close> or \<open>y = L\<close> (in the exact
  arithmetic of the model; the code's doubles can exceed an edge by a rounding error).
\<close>

theorem large_small_clipped:
  assumes "floor_material self = Tile" and "tile_styles self = Large_small"
    and "validated self"
  shows "\<exists>s' calls. update_data self r s0 = Some (Inr (r, s'))
     \<and> s' = clipped_cubes self
              ((0, 0, tile_width self, tile_length self, thickness self) # calls)
              (tile_grout self no_geometry)
     \<and> take 8 (drop 8 (vs s')) =
         cube_vs 0 0 0 (min (tile_width self) (width self)) (min (tile_length self) (length_y self))
           (thickness self)
     \<and> within_edges self s'"
proof -
  note pos = validated_pos [OF assms(3)]
  define g where "g = tile_grout self no_geometry"
  define s1 where "s1 = add_cube self 0 0 0 (tile_width self) (tile_length self) (thickness self) True 0 g"
  define P where "P = (\<lambda>s. \<exists>calls. s = clipped_cubes self calls s1)"
  have P1: "P s1" unfolding P_def by (rule exI [of _ "[]"]) (simp add: clipped_cubes_def)
  have step: "P (add_cube self x y 0 w l z True 0 s)" if "P s" for x y w l z s
  proof -
    from that obtain calls where "s = clipped_cubes self calls s1" by (auto simp add: P_def)
    then have "add_cube self x y 0 w l z True 0 s = clipped_cubes self (calls @ [(x, y, w, l, z)]) s1"
      by (simp add: clipped_cubes_append)
    then show ?thesis unfolding P_def by blast
  qed
  obtain cx1 cy1 sb1 s2 where
    cell: "tile_large_small_cell self 0 0 0 True g = (cx1, cy1, sb1, s2)"
    by (cases "tile_large_small_cell self 0 0 0 True g") auto
  then have "\<exists>x y w l. s2 = add_cube self x y 0 w l (thickness self) True 0 s1"
    by (auto simp add: tile_large_small_cell_def Let_def s1_def)
  with step [OF P1] have P2: "P s2" by auto
  from tile_large_small_rows_returns [of self 0 0 g] pos obtain s' where
    run: "tile_large_small_rows self 0 0 0 g = Some s'" by blast
  have "tile_large_small_rows self 0 0 0 g =
      Option.bind (tile_large_small_cols self 0 0 0 True g)
        (\<lambda>s. tile_large_small_rows self (Suc 0) (tile_length self + spacing self)
               (tile_length self + spacing self) s)"
    using tile_large_small_rows_step [of 0 self 0 0 g] pos by simp
  with run obtain sa where
    cols: "tile_large_small_cols self 0 0 0 True g = Some sa"
    and rest: "tile_large_small_rows self (Suc 0) (tile_length self + spacing self)
         (tile_length self + spacing self) sa = Some s'"
    by (cases "tile_large_small_cols self 0 0 0 True g") auto
  from cols tile_large_small_cols_step [OF _ cell] pos
  have "tile_large_small_cols self 0 cx1 cy1 sb1 s2 = Some sa" by simp
  then have "P sa" using P2 step by (rule tile_large_small_cols_rule [where P = P])
  with rest have "P s'" using step by (rule tile_large_small_rows_rule [where P = P])
  then obtain calls where calls: "s' = clipped_cubes self calls s1" by (auto simp add: P_def)
  have 1: "update_data self r s0 = Some (Inr (r, s'))"
    using run assms(1,2) by (simp add: update_data_def tile_large_small_def Let_def g_def)
  have 2: "s' = clipped_cubes self
              ((0, 0, tile_width self, tile_length self, thickness self) # calls) g"
    using calls by (simp add: clipped_cubes_def s1_def)
  have vg: "length (vs g) = 8"
    using tile_grout_slab [of self] pos by (simp add: g_def)
  have vs1: "vs s1 = vs g @ cube_vs 0 0 0 (min (tile_width self) (width self))
       (min (tile_length self) (length_y self)) (thickness self)"
    using pos by (simp add: s1_def add_cube_def min_def)
  from clipped_cubes_extends [of s1 self calls] calls obtain more where
    "vs s' = vs s1 @ more" by (auto simp add: extends_def prefix_def)
  with vs1 vg have 3: "take 8 (drop 8 (vs s')) = cube_vs 0 0 0 (min (tile_width self) (width self))
       (min (tile_length self) (length_y self)) (thickness self)" by simp
  have "within_edges self no_geometry" by (simp add: within_edges_def no_geometry_def)
  then have "within_edges self g"
    by (simp add: g_def tile_grout_def Let_def within_edges_add_cube)
  with run have 4: "within_edges self s'" using within_edges_add_cube
    by (rule tile_large_small_rows_rule [where P = "within_edges self"])
  from 1 2 3 4 show ?thesis unfolding g_def by blast
qed

theorem large_small_clipped_witness:
  "\<exists>s' calls. update_data example_tiles (\<lambda>n. 0) no_geometry = Some (Inr (\<lambda>n. 0, s'))
     \<and> s' = clipped_cubes example_tiles ((0, 0, 2, 2, 1) # calls) (tile_grout example_tiles no_geometry)
     \<and> take 8 (drop 8 (vs s')) = cube_vs 0 0 0 2 1 1
     \<and> within_edges example_tiles s' \<and> (5 / 2, 0, 0) \<in> set (vs s')"
proof -
  from large_small_clipped [OF _ _ validated_example_tiles, of "\<lambda>n. 0" no_geometry]
  obtain s' calls where
    "update_data example_tiles (\<lambda>n. 0) no_geometry = Some (Inr (\<lambda>n. 0, s'))"
    "s' = clipped_cubes example_tiles ((0, 0, 2, 2, 1) # calls) (tile_grout example_tiles no_geometry)"
    "take 8 (drop 8 (vs s')) = cube_vs 0 0 0 2 1 1"
    "within_edges example_tiles s'"
    by auto
  moreover from this(1) example_tiles_run [of "\<lambda>n. 0" no_geometry]
  have "(5 / 2, 0, 0) \<in> set (vs s')" by (auto simp add: cube_vs_def)
  ultimately show ?thesis by blast
qed

section \<open>Coverage in double arithmetic\<close>



lemma binary64_scaled:
  assumes lo: "2 ^ 52 \<le> \<bar>x\<bar> * 2 ^ k" and hi: "\<bar>x\<bar> * 2 ^ k < 2 ^ 53" and k: "k \<le> 1074"
  shows "binary64 x = of_int (round_half_even (x * 2 ^ k)) / 2 ^ k"
proof -
  have x: "x \<noteq> 0" using lo by auto
  then have ax: "0 < \<bar>x\<bar>" by simp
  have p: "(2::real) powr (52 - real k) = 2 ^ 52 / 2 ^ k"
    by (simp add: powr_diff powr_realpow)
  have p1: "(2::real) powr (53 - real k) = 2 ^ 53 / 2 ^ k"
    by (simp add: powr_diff powr_realpow)
  have "2 ^ 52 / 2 ^ k \<le> \<bar>x\<bar>" using lo by (simp add: pos_divide_le_eq)
  with p have "2 powr (52 - real k) \<le> \<bar>x\<bar>" by simp
  then have l1: "52 - real k \<le> log 2 \<bar>x\<bar>" using ax by (simp add: le_log_iff)
  have "\<bar>x\<bar> < 2 ^ 53 / 2 ^ k" using hi by (simp add: pos_less_divide_eq)
  with p1 have "\<bar>x\<bar> < 2 powr (53 - real k)" by simp
  then have l2: "log 2 \<bar>x\<bar> < 53 - real k" using ax by (simp add: log_less_iff)
  have "\<lfloor>log 2 \<bar>x\<bar>\<rfloor> = 52 - int k"
    using l1 l2 by (intro floor_unique) simp_all
  then have e: "max \<lfloor>log 2 \<bar>x\<bar>\<rfloor> (- 1022) - 52 = - int k" using k by simp
  have q: "(2::real) powr (- real k) = 1 / 2 ^ k"
    by (simp add: powr_minus powr_realpow divide_simps)
  show ?thesis using x by (simp add: binary64_def e Let_def q)
qed

lemma tenth: "binary64 (1 / 10) = 3602879701896397 / 36028797018963968"
  by (simp add: binary64_scaled [where k = 56] round_half_even_def)

lemma example_tenths_simps [simp]:
  "width example_tenths = 1" "length_y example_tenths = 1"
  "thickness example_tenths = 1" "vary_thickness example_tenths = False"
  "board_width example_tenths = 3602879701896397 / 36028797018963968"
  "vary_width example_tenths = False"
  "width_spacing example_tenths = 0" "board_length example_tenths = 1"
  "vary_length example_tenths = False" "length_spacing example_tenths = 0"
  by (simp_all add: example_tenths_def example_floor_def tenth)






lemma binary64_0 [simp]: "binary64 0 = 0"
  by (simp add: binary64_def)







end
